theory Spec2Isabelle
  imports Main
begin

section \<open>Data model of \<^verbatim>\<open>src/index.ts\<close>\<close>

text \<open>
  The module keeps five module-level variables (\<^verbatim>\<open>isAltActive\<close>, \<^verbatim>\<open>config\<close>,
  \<^verbatim>\<open>accessMap\<close>, \<^verbatim>\<open>observer\<close>, \<^verbatim>\<open>pendingGroup\<close>) and works on the browser's document.
  The embedding threads one record through every function: the module variables plus the
  part of the document the module reads and writes.

  \<^item> A DOM element is a reference; it is modelled by its identity, a natural number.
  \<^item> The document is the list of its elements in traversal order, each with its
    attributes and the corner of its current layout box.
  \<^item> A JavaScript array is an object that can be aliased: \<^verbatim>\<open>pendingGroup = elements\<close>
    stores the very array that \<^verbatim>\<open>accessMap\<close> holds. Arrays therefore live in an explicit
    store (a list indexed by address; allocation appends), and both \<^verbatim>\<open>accessMap\<close> and
    \<^verbatim>\<open>pendingGroup\<close> hold addresses.
  \<^item> A \<^verbatim>\<open>Map\<close> iterates in insertion order, so \<^verbatim>\<open>accessMap\<close> is an association list.
  \<^item> Strings are \<^typ>\<open>string\<close>; \<^verbatim>\<open>toLowerCase\<close> and \<^verbatim>\<open>toUpperCase\<close> are modelled on the
    ASCII letters, the other characters are left as they are.
  \<^item> Layout coordinates are JavaScript numbers; they are modelled as integers.
  \<^item> What the module does to an element (focus, dispatched events) is recorded in the
    list \<open>effects\<close>; the handlers that the host page attaches to its elements are not part
    of the module.
\<close>

type_synonym elem = nat
type_synonym addr = nat

record node =
  ident :: elem
  attributes :: "(string \<times> string) list"
  rect_left :: int
  rect_top :: int

text \<open>\<^verbatim>\<open>MnemonicConfig\<close>: every option may be absent.\<close>

record MnemonicConfig =
  user_attr :: "string option"
  user_activeClass :: "string option"
  user_color :: "string option"
  user_textColor :: "string option"
  user_animationDuration :: "string option"

text \<open>\<^verbatim>\<open>Required<MnemonicConfig>\<close>, the type of the module variable \<^verbatim>\<open>config\<close>.\<close>

record RequiredConfig =
  attr :: string
  activeClass :: string
  color :: string
  textColor :: string
  animationDuration :: string

text \<open>
  A value of an inline style property: a literal of the source, or the pixel length the
  template \<^verbatim>\<open>`${n}px`\<close> produces.
\<close>

datatype cssval = Lit string | Px int

text \<open>
  A hint element (a \<^verbatim>\<open>span\<close> appended to the body): its class list, its text, its inline
  style declarations, and whether an \<^verbatim>\<open>animationend\<close> listener that removes it has been
  registered.
\<close>

record label =
  classList :: "string list"
  textContent :: string
  style :: "(string \<times> cssval) list"
  removeOnAnimationEnd :: bool

text \<open>
  The rule for \<^verbatim>\<open>.mnemo-label\<close> of the injected \<^verbatim>\<open><style id="mnemo-style">\<close> block: the three
  places of the template that are filled from \<^verbatim>\<open>config\<close>.
\<close>

record styleRule =
  rule_backgroundColor :: string
  rule_color :: string
  rule_animationDuration :: string

text \<open>What \<^verbatim>\<open>triggerElement\<close> does to an element: focus, and dispatched keyboard events
  (type, key, code, bubbles).\<close>

datatype effect =
    Focus elem
  | DispatchKeyboardEvent elem string string string bool

record state =
  isAltActive :: bool
  config :: RequiredConfig
  accessMap :: "(string \<times> addr) list"
  pendingGroup :: "addr option"
  heap :: "elem list list"
  document :: "node list"
  labels :: "label list"
  mnemoStyle :: "styleRule option"
  scrollX :: int
  scrollY :: int
  effects :: "effect list"

section \<open>Strings\<close>

definition upperLetters :: string where
  "upperLetters = ''ABCDEFGHIJKLMNOPQRSTUVWXYZ''"

definition lowerLetters :: string where
  "lowerLetters = ''abcdefghijklmnopqrstuvwxyz''"

definition toLowerChar :: "char \<Rightarrow> char" where
  "toLowerChar c = (case map_of (zip upperLetters lowerLetters) c of Some d \<Rightarrow> d | None \<Rightarrow> c)"

definition toUpperChar :: "char \<Rightarrow> char" where
  "toUpperChar c = (case map_of (zip lowerLetters upperLetters) c of Some d \<Rightarrow> d | None \<Rightarrow> c)"

definition toLowerCase :: "string \<Rightarrow> string" where
  "toLowerCase str = map toLowerChar str"

definition toUpperCase :: "string \<Rightarrow> string" where
  "toUpperCase str = map toUpperChar str"

text \<open>The decimal numeral of a number, as the template literal \<^verbatim>\<open>`${i + 1}`\<close> prints it.\<close>

definition digitChar :: "nat \<Rightarrow> char" where
  "digitChar d = ''0123456789'' ! d"

fun numberToString :: "nat \<Rightarrow> string" where
  "numberToString n =
     (if n < 10 then [digitChar n] else numberToString (n div 10) @ [digitChar (n mod 10)])"

declare numberToString.simps [simp del]

text \<open>The test \<^verbatim>\<open>/^[1-9]$/.test(key)\<close>: the key is exactly one character, a digit from 1 to 9.\<close>

definition isDigit1to9 :: "string \<Rightarrow> bool" where
  "isDigit1to9 key = (case key of [c] \<Rightarrow> c \<in> set ''123456789'' | _ \<Rightarrow> False)"

text \<open>
  \<^verbatim>\<open>parseInt(key, 10)\<close> on a string of decimal digits. The handler calls it only on keys
  that pass \<^verbatim>\<open>/^[1-9]$/\<close>, where the result is never \<^verbatim>\<open>NaN\<close>.
\<close>

definition digitValue :: "char \<Rightarrow> nat" where
  "digitValue c = length (takeWhile (\<lambda>d. d \<noteq> c) ''0123456789'')"

definition parseInt :: "string \<Rightarrow> nat" where
  "parseInt str = foldl (\<lambda>n c. 10 * n + digitValue c) 0 str"

section \<open>The element indexer: \<^verbatim>\<open>scanDocument\<close>\<close>

definition getAttribute :: "node \<Rightarrow> string \<Rightarrow> string option" where
  "getAttribute el name = map_of (attributes el) name"

text \<open>
  \<^verbatim>\<open>document.querySelectorAll(`[${attr}]`)\<close>: the elements that carry the attribute, in
  document order. The attribute name is taken to be one for which the selector is
  well formed.
\<close>

definition querySelectorAll :: "node list \<Rightarrow> string \<Rightarrow> node list" where
  "querySelectorAll doc name = filter (\<lambda>el. getAttribute el name \<noteq> None) doc"

text \<open>
  One call of the \<^verbatim>\<open>forEach\<close> callback in \<^verbatim>\<open>scanDocument\<close>, on the map and the array store.
  \<^verbatim>\<open>!key\<close> holds when the attribute is absent (\<^verbatim>\<open>undefined\<close>) or its value is empty.
  \<^verbatim>\<open>accessMap.get(key)!.push(el)\<close> extends the stored array in place; \<^verbatim>\<open>accessMap.set(key, [el])\<close>
  allocates a new array.
\<close>

definition scanElement :: "string \<Rightarrow> (string \<times> addr) list \<times> elem list list \<Rightarrow> node
    \<Rightarrow> (string \<times> addr) list \<times> elem list list" where
  "scanElement name mh el =
     (case map_option toLowerCase (getAttribute el name) of
        None \<Rightarrow> mh
      | Some key \<Rightarrow>
          if key = [] then mh
          else
            (case map_of (fst mh) key of
               Some a \<Rightarrow> (fst mh, (snd mh)[a := snd mh ! a @ [ident el]])
             | None \<Rightarrow> (fst mh @ [(key, length (snd mh))], snd mh @ [[ident el]])))"

definition scanDocument :: "state \<Rightarrow> state" where
  "scanDocument s =
     (let elements = querySelectorAll (document s) (attr (config s));
          mh = foldl (scanElement (attr (config s))) ([], heap s) elements
      in s\<lparr>accessMap := fst mh, heap := snd mh\<rparr>)"

text \<open>\<^verbatim>\<open>accessMap.get(key)\<close>, read through the store: the elements bound to a key.\<close>

definition accessMap_get :: "state \<Rightarrow> string \<Rightarrow> elem list option" where
  "accessMap_get s key = map_option (\<lambda>a. heap s ! a) (map_of (accessMap s) key)"

text \<open>The whole index as the code can observe it: keys in insertion order, each with the
  contents of its array.\<close>

definition indexView :: "state \<Rightarrow> (string \<times> elem list) list" where
  "indexView s = map (\<lambda>ka. (fst ka, heap s ! snd ka)) (accessMap s)"

section \<open>The trigger dispatcher: \<^verbatim>\<open>triggerElement\<close>\<close>

text \<open>
  Focus, then a bubbling \<^verbatim>\<open>keydown\<close> and a bubbling \<^verbatim>\<open>keyup\<close> of the Enter key on the element.
  Both events bubble up to the module's own listeners on \<^verbatim>\<open>window\<close>; lemmas
  \<open>keydownListener_Enter\<close> and \<open>keyupListener_Enter\<close> below show that these listeners leave
  the state as it is on the Enter key, so the dispatch is recorded as an effect only.
\<close>

definition triggerElement :: "elem \<Rightarrow> state \<Rightarrow> state" where
  "triggerElement el s =
     s\<lparr>effects := effects s @
        [Focus el,
         DispatchKeyboardEvent el ''keydown'' ''Enter'' ''Enter'' True,
         DispatchKeyboardEvent el ''keyup'' ''Enter'' ''Enter'' True]\<rparr>"

section \<open>The overlay renderer: \<^verbatim>\<open>ensureMnemoStyles\<close>, \<^verbatim>\<open>markMnemonics\<close>, \<^verbatim>\<open>resetMnemonics\<close>\<close>

definition ensureMnemoStyles :: "state \<Rightarrow> state" where
  "ensureMnemoStyles s =
     (case mnemoStyle s of
        Some r \<Rightarrow> s
      | None \<Rightarrow>
          s\<lparr>mnemoStyle := Some \<lparr>rule_backgroundColor = color (config s),
                                rule_color = textColor (config s),
                                rule_animationDuration = animationDuration (config s)\<rparr>\<rparr>)"

text \<open>\<^verbatim>\<open>classList.add(c)\<close>: a class list holds a token once.\<close>

definition classList_add :: "string \<Rightarrow> string list \<Rightarrow> string list" where
  "classList_add c cs = (if c \<in> set cs then cs else cs @ [c])"

text \<open>The callback of the first \<^verbatim>\<open>forEach\<close> of \<^verbatim>\<open>markMnemonics\<close>, which runs on the elements
  that \<^verbatim>\<open>querySelectorAll('.mnemo-label')\<close> selects.\<close>

definition fadeOut :: "label \<Rightarrow> label" where
  "fadeOut n =
     (if ''mnemo-label'' \<in> set (classList n)
      then n\<lparr>classList := classList_add ''fade-out'' (classList n), removeOnAnimationEnd := True\<rparr>
      else n)"

text \<open>\<^verbatim>\<open>el.getBoundingClientRect()\<close>, left and top: the element's current layout box, all
  zero for an element that is no longer in the document.\<close>

definition getBoundingClientRect :: "node list \<Rightarrow> elem \<Rightarrow> int \<times> int" where
  "getBoundingClientRect doc el =
     (case find (\<lambda>n. ident n = el) doc of
        Some n \<Rightarrow> (rect_left n, rect_top n)
      | None \<Rightarrow> (0, 0))"

definition inlineStyle :: "state \<Rightarrow> elem \<Rightarrow> (string \<times> cssval) list" where
  "inlineStyle s el =
     (let rect = getBoundingClientRect (document s) el in
      [(''position'', Lit ''absolute''),
       (''left'', Px (fst rect + scrollX s)),
       (''top'', Px (snd rect + scrollY s - 10)),
       (''zIndex'', Lit ''9999''),
       (''backgroundColor'', Lit ''#000''),
       (''color'', Lit ''#fff''),
       (''fontSize'', Lit ''10px''),
       (''padding'', Lit ''2px 4px''),
       (''borderRadius'', Lit ''6px''),
       (''border'', Lit ''1px grey solid''),
       (''opacity'', Lit ''0.9'')])"

text \<open>
  The callback of the inner \<^verbatim>\<open>forEach\<close>: the labels it appends to the body (none or one)
  for the element \<open>el\<close> at position \<open>i\<close> of the array \<open>elements\<close> bound to \<open>key\<close>.
  \<^verbatim>\<open>activeKey && key !== activeKey\<close> skips the element; an absent or empty \<^verbatim>\<open>activeKey\<close>
  is falsy.
\<close>

definition labelFor :: "state \<Rightarrow> string option \<Rightarrow> string list option \<Rightarrow> string
    \<Rightarrow> elem list \<Rightarrow> nat \<times> elem \<Rightarrow> label list" where
  "labelFor s activeKey classes key elements iel =
     (let label = \<lparr>classList = [''mnemo-label''],
                   textContent =
                     (if length elements > 1
                      then toUpperCase key @ numberToString (fst iel + 1)
                      else toUpperCase key),
                   style = [],
                   removeOnAnimationEnd = False\<rparr>
      in if activeKey \<noteq> None \<and> activeKey \<noteq> Some [] \<and> Some key \<noteq> activeKey then []
         else
           (case classes of
              Some cs \<Rightarrow> [label\<lparr>classList := foldl (\<lambda>l c. classList_add c l) (classList label) cs\<rparr>]
            | None \<Rightarrow> [label\<lparr>style := inlineStyle s (snd iel)\<rparr>]))"

text \<open>The labels that \<^verbatim>\<open>accessMap.forEach\<close> appends, in order.\<close>

definition newLabels :: "state \<Rightarrow> string option \<Rightarrow> string list option \<Rightarrow> label list" where
  "newLabels s activeKey classes =
     concat (map (\<lambda>ka.
       let elements = heap s ! snd ka
       in concat (map (labelFor s activeKey classes (fst ka) elements) (enumerate 0 elements)))
       (accessMap s))"

definition markMnemonics :: "bool \<Rightarrow> string option \<Rightarrow> string list option \<Rightarrow> state \<Rightarrow> state" where
  "markMnemonics show activeKey classes s =
     (let s1 = ensureMnemoStyles s;
          s2 = s1\<lparr>labels := map fadeOut (labels s1)\<rparr>
      in if \<not> show then s2
         else s2\<lparr>labels := labels s2 @ newLabels s2 activeKey classes\<rparr>)"

definition resetMnemonics :: "state \<Rightarrow> state" where
  "resetMnemonics s = markMnemonics False None None (s\<lparr>isAltActive := False, pendingGroup := None\<rparr>)"

section \<open>The input state machine: the listeners of \<^verbatim>\<open>setupKeyEvents\<close>\<close>

text \<open>
  The \<^verbatim>\<open>keydown\<close> listener, on the event's \<^verbatim>\<open>key\<close>. It returns the new state and whether it
  called \<^verbatim>\<open>e.preventDefault()\<close>. \<^verbatim>\<open>pendingGroup[index]\<close> is an element (truthy) when the
  index is within the array and \<^verbatim>\<open>undefined\<close> otherwise.
\<close>

definition keydownListener :: "string \<Rightarrow> state \<Rightarrow> state \<times> bool" where
  "keydownListener key s =
     (if key = ''Escape'' then (resetMnemonics s, False)
      else if key = ''Alt'' then
        (if \<not> isAltActive s then markMnemonics True None None (s\<lparr>isAltActive := True\<rparr>) else s, True)
      else if pendingGroup s \<noteq> None \<and> isDigit1to9 key then
        (let group = heap s ! the (pendingGroup s);
             index = parseInt key - 1
         in (resetMnemonics (if index < length group then triggerElement (group ! index) s else s),
             False))
      else if isAltActive s \<and> length key = 1 then
        (let k = toLowerCase key in
         case map_of (accessMap s) k of
           None \<Rightarrow> (s, False)
         | Some a \<Rightarrow>
             (let elements = heap s ! a in
              if length elements = 0 then (s, False)
              else if length elements = 1 then
                (resetMnemonics (triggerElement (elements ! 0) s), True)
              else (markMnemonics True (Some k) None (s\<lparr>pendingGroup := Some a\<rparr>), True)))
      else (s, False))"

definition keyupListener :: "string \<Rightarrow> state \<Rightarrow> state" where
  "keyupListener key s = (if key = ''Alt'' then resetMnemonics s else s)"

section \<open>Initialisation and the session\<close>

text \<open>The module variables as the module's top level initialises them, in a browser whose
  document is \<open>doc\<close>; \<^verbatim>\<open>config\<close> is unassigned until \<^verbatim>\<open>initMnemonics\<close> runs.\<close>

definition moduleLoaded :: "node list \<Rightarrow> int \<Rightarrow> int \<Rightarrow> state" where
  "moduleLoaded doc sx sy =
     \<lparr>isAltActive = False,
      config = \<lparr>attr = [], activeClass = [], color = [], textColor = [], animationDuration = []\<rparr>,
      accessMap = [], pendingGroup = None, heap = [], document = doc, labels = [],
      mnemoStyle = None, scrollX = sx, scrollY = sy, effects = []\<rparr>"

definition nullish :: "string option \<Rightarrow> string \<Rightarrow> string" where
  "nullish v d = (case v of Some x \<Rightarrow> x | None \<Rightarrow> d)"

text \<open>\<^verbatim>\<open>initMnemonics\<close>; \<^verbatim>\<open>setupObserver\<close> and \<^verbatim>\<open>setupKeyEvents\<close> register the callbacks that the
  events below stand for. The session is initialised once.\<close>

definition initMnemonics :: "MnemonicConfig \<Rightarrow> state \<Rightarrow> state" where
  "initMnemonics userConfig s =
     scanDocument
       (s\<lparr>config := \<lparr>attr = nullish (user_attr userConfig) ''data-accesskey'',
                     activeClass = nullish (user_activeClass userConfig) ''mnemonic-active'',
                     color = nullish (user_color userConfig) [],
                     textColor = nullish (user_textColor userConfig) [],
                     animationDuration = nullish (user_animationDuration userConfig) ''0.15s''\<rparr>\<rparr>)"

text \<open>
  What the event loop delivers to the module, one at a time:
  a key press, a key release, a batch of child-list mutations under the body that leaves
  the document as \<open>doc\<close> (the observer's callback is \<^verbatim>\<open>scanDocument\<close>; appending and removing
  hint labels produces such batches too, with the tagged elements unchanged), and the end
  of the animation of the hint at a position of the body's hints. The observer watches
  child lists only: a change of an attribute alone causes no rescan.
\<close>

datatype event =
    KeyDown string
  | KeyUp string
  | MutationBatch "node list"
  | AnimationEnd nat

definition animationEnd :: "nat \<Rightarrow> state \<Rightarrow> state" where
  "animationEnd i s =
     (if i < length (labels s) \<and> removeOnAnimationEnd (labels s ! i)
      then s\<lparr>labels := take i (labels s) @ drop (Suc i) (labels s)\<rparr>
      else s)"

fun step :: "state \<Rightarrow> event \<Rightarrow> state" where
  "step s (KeyDown key) = fst (keydownListener key s)"
| "step s (KeyUp key) = keyupListener key s"
| "step s (MutationBatch doc) = scanDocument (s\<lparr>document := doc\<rparr>)"
| "step s (AnimationEnd i) = animationEnd i s"

definition run :: "state \<Rightarrow> event list \<Rightarrow> state" where
  "run s evs = foldl step s evs"

text \<open>The three states of the session, read off the two module variables.\<close>

definition Idle :: "state \<Rightarrow> bool" where
  "Idle s = (\<not> isAltActive s \<and> pendingGroup s = None)"

definition Armed :: "state \<Rightarrow> bool" where
  "Armed s = (isAltActive s \<and> pendingGroup s = None)"

definition Disambiguating :: "state \<Rightarrow> bool" where
  "Disambiguating s = (isAltActive s \<and> pendingGroup s \<noteq> None)"

text \<open>The hints that are in the body and not fading out.\<close>

definition visibleHints :: "state \<Rightarrow> label list" where
  "visibleHints s =
     filter (\<lambda>n. ''mnemo-label'' \<in> set (classList n) \<and> ''fade-out'' \<notin> set (classList n)) (labels s)"

text \<open>
  The colour a hint is painted with. An inline declaration (\<^verbatim>\<open>label.style.x = ...\<close>) takes
  precedence over a rule of a style sheet; without one, the rule for \<^verbatim>\<open>.mnemo-label\<close> of the
  injected block applies to an element of that class.
\<close>

definition effectiveBackgroundColor :: "state \<Rightarrow> label \<Rightarrow> cssval option" where
  "effectiveBackgroundColor s n =
     (case map_of (style n) ''backgroundColor'' of
        Some v \<Rightarrow> Some v
      | None \<Rightarrow>
          if ''mnemo-label'' \<in> set (classList n)
          then map_option (\<lambda>r. Lit (rule_backgroundColor r)) (mnemoStyle s)
          else None)"

definition effectiveColor :: "state \<Rightarrow> label \<Rightarrow> cssval option" where
  "effectiveColor s n =
     (case map_of (style n) ''color'' of
        Some v \<Rightarrow> Some v
      | None \<Rightarrow>
          if ''mnemo-label'' \<in> set (classList n)
          then map_option (\<lambda>r. Lit (rule_color r)) (mnemoStyle s)
          else None)"

section \<open>Invariants and auxiliary notions\<close>

text \<open>The session invariant: a pending group is only held while the modifier is recorded
  as active.\<close>

definition groupImpliesAlt :: "state \<Rightarrow> bool" where
  "groupImpliesAlt s = (pendingGroup s \<noteq> None \<longrightarrow> isAltActive s)"

text \<open>
  Representation invariant of the store: a \<^verbatim>\<open>Map\<close> holds a key once, the arrays of two keys
  are different objects, and every reference points to an allocated array; the addresses
  of the map are not below \<open>base\<close>.
\<close>

definition storeOK :: "nat \<Rightarrow> (string \<times> addr) list \<Rightarrow> elem list list \<Rightarrow> bool" where
  "storeOK base m h =
     (distinct (map fst m) \<and> distinct (map snd m) \<and>
      list_all (\<lambda>ka. base \<le> snd ka \<and> snd ka < length h) m)"

definition wellFormed :: "state \<Rightarrow> bool" where
  "wellFormed s =
     (storeOK 0 (accessMap s) (heap s) \<and>
      (case pendingGroup s of None \<Rightarrow> True | Some a \<Rightarrow> a < length (heap s)))"

text \<open>The map read through a store: keys in insertion order, each with the contents of
  its array.\<close>

definition view :: "(string \<times> addr) list \<Rightarrow> elem list list \<Rightarrow> (string \<times> elem list) list" where
  "view m h = map (\<lambda>ka. (fst ka, h ! snd ka)) m"

text \<open>The index as a value, without the store: what one call of the \<^verbatim>\<open>forEach\<close> callback of
  \<^verbatim>\<open>scanDocument\<close> does to the list of keys and groups, and the index of a document.\<close>

definition groupStep :: "string \<Rightarrow> (string \<times> elem list) list \<Rightarrow> node \<Rightarrow> (string \<times> elem list) list" where
  "groupStep name v el =
     (case map_option toLowerCase (getAttribute el name) of
        None \<Rightarrow> v
      | Some key \<Rightarrow>
          if key = [] then v
          else if key \<in> fst ` set v
          then map (\<lambda>kg. if fst kg = key then (fst kg, snd kg @ [ident el]) else kg) v
          else v @ [(key, [ident el])])"

definition groupedIndex :: "string \<Rightarrow> node list \<Rightarrow> (string \<times> elem list) list" where
  "groupedIndex name doc = foldl (groupStep name) [] (querySelectorAll doc name)"

text \<open>The key an element is bound to: its lower-cased attribute value, when the attribute
  is present and not empty.\<close>

definition bindingKey :: "string \<Rightarrow> node \<Rightarrow> string option" where
  "bindingKey name el =
     (case getAttribute el name of
        None \<Rightarrow> None
      | Some v \<Rightarrow> if toLowerCase v = [] then None else Some (toLowerCase v))"

text \<open>The three events that \<^verbatim>\<open>triggerElement\<close> produces on an element.\<close>

definition triggered :: "elem \<Rightarrow> effect list" where
  "triggered el =
     [Focus el,
      DispatchKeyboardEvent el ''keydown'' ''Enter'' ''Enter'' True,
      DispatchKeyboardEvent el ''keyup'' ''Enter'' ''Enter'' True]"

text \<open>The hint texts of a group of \<open>n\<close> elements when ordinals are shown.\<close>

definition numberedHints :: "string \<Rightarrow> nat \<Rightarrow> string list" where
  "numberedHints key n = map (\<lambda>i. toUpperCase key @ numberToString (i + 1)) [0..<n]"

text \<open>The elements of a document that are bound to a key, in document order.\<close>

definition boundTo :: "string \<Rightarrow> string \<Rightarrow> node list \<Rightarrow> elem list" where
  "boundTo name key doc = map ident (filter (\<lambda>n. bindingKey name n = Some key) doc)"

text \<open>What the index of the elements \<open>els\<close> looks like: a key occurs once, its group is the
  non-empty list of the elements bound to it, and every key that is bound occurs.\<close>

definition grouped :: "string \<Rightarrow> node list \<Rightarrow> (string \<times> elem list) list \<Rightarrow> bool" where
  "grouped name els v =
     (distinct (map fst v) \<and>
      (\<forall>kg \<in> set v. snd kg = boundTo name (fst kg) els \<and> snd kg \<noteq> []) \<and>
      (\<forall>n \<in> set els. \<forall>key. bindingKey name n = Some key \<longrightarrow> key \<in> fst ` set v))"

text \<open>The contents of the array that \<^verbatim>\<open>pendingGroup\<close> refers to.\<close>

definition pendingGroup_contents :: "state \<Rightarrow> elem list option" where
  "pendingGroup_contents s = map_option (\<lambda>a. heap s ! a) (pendingGroup s)"

text \<open>Every hint in the body carries the class \<^verbatim>\<open>mnemo-label\<close>, which \<^verbatim>\<open>markMnemonics\<close> gives it
  when it creates it; this is what \<^verbatim>\<open>querySelectorAll('.mnemo-label')\<close> selects by.\<close>

definition hintsTagged :: "state \<Rightarrow> bool" where
  "hintsTagged s = list_all (\<lambda>n. ''mnemo-label'' \<in> set (classList n)) (labels s)"

text \<open>
  A hint \<open>n\<close> has been retired as \<open>n'\<close>: it is the same hint (text and inline style), it has
  kept its classes and has got the class \<^verbatim>\<open>fade-out\<close> in addition, so that the rule
  \<^verbatim>\<open>.mnemo-label.fade-out\<close> applies to it, and its removal at the end of the animation is
  registered.
\<close>

definition markedExiting :: "label \<Rightarrow> label \<Rightarrow> bool" where
  "markedExiting n n' =
     (textContent n' = textContent n \<and> style n' = style n \<and>
      set (classList n') = insert ''fade-out'' (set (classList n)) \<and>
      ''mnemo-label'' \<in> set (classList n') \<and> ''fade-out'' \<in> set (classList n') \<and>
      removeOnAnimationEnd n')"

section \<open>A sample session\<close>

text \<open>A document with one element bound to \<open>s\<close>, three bound to \<open>o\<close> (one of them tagged with
  the capital letter), one with an empty attribute value and one without the attribute.\<close>

definition exampleDoc :: "node list" where
  "exampleDoc =
     [\<lparr>ident = 1, attributes = [(''id'', ''save''), (''data-accesskey'', ''s'')],
       rect_left = 8, rect_top = 30\<rparr>,
      \<lparr>ident = 2, attributes = [(''data-accesskey'', ''O'')], rect_left = 8, rect_top = 60\<rparr>,
      \<lparr>ident = 3, attributes = [(''data-accesskey'', ''o'')], rect_left = 8, rect_top = 90\<rparr>,
      \<lparr>ident = 4, attributes = [(''data-accesskey'', ''o'')], rect_left = 8, rect_top = 120\<rparr>,
      \<lparr>ident = 5, attributes = [(''data-accesskey'', [])], rect_left = 8, rect_top = 150\<rparr>,
      \<lparr>ident = 6, attributes = [(''id'', ''plain'')], rect_left = 8, rect_top = 180\<rparr>]"

text \<open>The same document after a fourth element bound to \<open>o\<close> has been inserted.\<close>

definition exampleDocGrown :: "node list" where
  "exampleDocGrown =
     exampleDoc @
     [\<lparr>ident = 7, attributes = [(''data-accesskey'', ''o'')], rect_left = 8, rect_top = 210\<rparr>]"

definition exampleConfig :: MnemonicConfig where
  "exampleConfig =
     \<lparr>user_attr = None, user_activeClass = None, user_color = Some ''#f00'',
      user_textColor = Some ''#0f0'', user_animationDuration = None\<rparr>"

definition exampleIdle :: state where
  "exampleIdle = initMnemonics exampleConfig (moduleLoaded exampleDoc 0 0)"

definition exampleArmed :: state where
  "exampleArmed = run exampleIdle [KeyDown ''Alt'']"

definition exampleDisambiguating :: state where
  "exampleDisambiguating = run exampleIdle [KeyDown ''Alt'', KeyDown ''o'']"

text \<open>The session after the fourth element has been inserted while the group of \<open>o\<close> is
  pending, and after the letter has then been pressed once more, the modifier still held.\<close>

definition exampleMutated :: state where
  "exampleMutated = run exampleDisambiguating [MutationBatch exampleDocGrown]"

definition exampleRepressed :: state where
  "exampleRepressed = run exampleDisambiguating [MutationBatch exampleDocGrown, KeyDown ''o'']"

section \<open>Basic facts about the operations\<close>

lemma ensureMnemoStyles_fields [simp]:
  "isAltActive (ensureMnemoStyles s) = isAltActive s"
  "pendingGroup (ensureMnemoStyles s) = pendingGroup s"
  "accessMap (ensureMnemoStyles s) = accessMap s"
  "heap (ensureMnemoStyles s) = heap s"
  "labels (ensureMnemoStyles s) = labels s"
  "effects (ensureMnemoStyles s) = effects s"
  "document (ensureMnemoStyles s) = document s"
  "config (ensureMnemoStyles s) = config s"
  "scrollX (ensureMnemoStyles s) = scrollX s"
  "scrollY (ensureMnemoStyles s) = scrollY s"
  by (simp_all add: ensureMnemoStyles_def split: option.split)

lemma inlineStyle_cong:
  assumes "document s' = document s" "scrollX s' = scrollX s" "scrollY s' = scrollY s"
  shows "inlineStyle s' = inlineStyle s"
  by (rule ext) (simp add: inlineStyle_def assms)

lemma labelFor_cong:
  assumes "document s' = document s" "scrollX s' = scrollX s" "scrollY s' = scrollY s"
  shows "labelFor s' = labelFor s"
  by (intro ext) (simp only: labelFor_def inlineStyle_cong [OF assms])

lemma newLabels_cong:
  assumes "document s' = document s" "scrollX s' = scrollX s" "scrollY s' = scrollY s"
    and "heap s' = heap s" "accessMap s' = accessMap s"
  shows "newLabels s' k c = newLabels s k c"
  by (simp only: newLabels_def labelFor_cong [OF assms(1-3)] assms(4,5))

lemma markMnemonics_fields [simp]:
  "isAltActive (markMnemonics b k c s) = isAltActive s"
  "pendingGroup (markMnemonics b k c s) = pendingGroup s"
  "accessMap (markMnemonics b k c s) = accessMap s"
  "heap (markMnemonics b k c s) = heap s"
  "effects (markMnemonics b k c s) = effects s"
  "document (markMnemonics b k c s) = document s"
  "config (markMnemonics b k c s) = config s"
  "scrollX (markMnemonics b k c s) = scrollX s"
  "scrollY (markMnemonics b k c s) = scrollY s"
  by (simp_all add: markMnemonics_def Let_def)

lemma labels_markMnemonics:
  "labels (markMnemonics b k c s) =
     map fadeOut (labels s) @ (if b then newLabels s k c else [])"
proof -
  have "newLabels ((ensureMnemoStyles s)\<lparr>labels := map fadeOut (labels (ensureMnemoStyles s))\<rparr>) k c
      = newLabels s k c"
    by (rule newLabels_cong) simp_all
  then show ?thesis
    by (simp add: markMnemonics_def Let_def)
qed

lemma resetMnemonics_fields [simp]:
  "isAltActive (resetMnemonics s) = False"
  "pendingGroup (resetMnemonics s) = None"
  "accessMap (resetMnemonics s) = accessMap s"
  "heap (resetMnemonics s) = heap s"
  "effects (resetMnemonics s) = effects s"
  "document (resetMnemonics s) = document s"
  "config (resetMnemonics s) = config s"
  "labels (resetMnemonics s) = map fadeOut (labels s)"
  by (simp_all add: resetMnemonics_def labels_markMnemonics)

lemma triggerElement_fields [simp]:
  "isAltActive (triggerElement el s) = isAltActive s"
  "pendingGroup (triggerElement el s) = pendingGroup s"
  "accessMap (triggerElement el s) = accessMap s"
  "heap (triggerElement el s) = heap s"
  "labels (triggerElement el s) = labels s"
  "document (triggerElement el s) = document s"
  "config (triggerElement el s) = config s"
  by (simp_all add: triggerElement_def)

lemma fadeOut_exiting:
  "''mnemo-label'' \<in> set (classList (fadeOut n)) \<Longrightarrow> ''fade-out'' \<in> set (classList (fadeOut n))"
  by (simp add: fadeOut_def classList_add_def split: if_splits)

lemma visibleHints_resetMnemonics: "visibleHints (resetMnemonics s) = []"
  using fadeOut_exiting by (auto simp add: visibleHints_def filter_empty_conv simp del: set_simps)

lemma Idle_resetMnemonics: "Idle (resetMnemonics s)"
  by (simp add: Idle_def)

lemma keydownListener_Enter: "keydownListener ''Enter'' s = (s, False)"
  by (simp add: keydownListener_def isDigit1to9_def)

lemma keyupListener_Enter: "keyupListener ''Enter'' s = s"
  by (simp add: keyupListener_def)

lemma scanDocument_fields [simp]:
  "isAltActive (scanDocument s) = isAltActive s"
  "pendingGroup (scanDocument s) = pendingGroup s"
  "labels (scanDocument s) = labels s"
  "document (scanDocument s) = document s"
  "config (scanDocument s) = config s"
  "effects (scanDocument s) = effects s"
  by (simp_all add: scanDocument_def Let_def)

lemma groupImpliesAlt_keydownListener:
  "groupImpliesAlt s \<Longrightarrow> groupImpliesAlt (fst (keydownListener key s))"
  by (auto simp add: groupImpliesAlt_def keydownListener_def Let_def split: option.split)

lemma groupImpliesAlt_keyupListener:
  "groupImpliesAlt s \<Longrightarrow> groupImpliesAlt (keyupListener key s)"
  by (simp add: groupImpliesAlt_def keyupListener_def)

lemma groupImpliesAlt_step: "groupImpliesAlt s \<Longrightarrow> groupImpliesAlt (step s ev)"
proof (cases ev)
  case (KeyDown key)
  assume "groupImpliesAlt s"
  then show ?thesis using KeyDown by (simp add: groupImpliesAlt_keydownListener)
next
  case (KeyUp key)
  assume "groupImpliesAlt s"
  then show ?thesis using KeyUp by (simp add: groupImpliesAlt_keyupListener)
next
  case (MutationBatch doc)
  assume "groupImpliesAlt s"
  then show ?thesis using MutationBatch by (simp add: groupImpliesAlt_def)
next
  case (AnimationEnd i)
  assume "groupImpliesAlt s"
  then show ?thesis using AnimationEnd by (simp add: groupImpliesAlt_def animationEnd_def)
qed

lemma groupImpliesAlt_run: "groupImpliesAlt s \<Longrightarrow> groupImpliesAlt (run s evs)"
  unfolding run_def by (induction evs arbitrary: s) (simp_all add: groupImpliesAlt_step)

lemma groupImpliesAlt_init: "groupImpliesAlt (initMnemonics userConfig (moduleLoaded doc sx sy))"
  by (simp add: groupImpliesAlt_def initMnemonics_def moduleLoaded_def)

section \<open>The array store under \<^verbatim>\<open>scanDocument\<close>\<close>

lemma storeOK_key_addr:
  assumes "storeOK base m h" "map_of m key = Some a" "ka \<in> set m"
  shows "fst ka = key \<longleftrightarrow> snd ka = a"
proof -
  have in_m: "(key, a) \<in> set m" using assms(2) by (rule map_of_SomeD)
  have d1: "distinct (map fst m)" and d2: "distinct (map snd m)"
    using assms(1) by (simp_all add: storeOK_def)
  show ?thesis
  proof
    assume "fst ka = key"
    then have "(key, snd ka) \<in> set m" using assms(3) by (metis prod.collapse)
    with in_m d1 show "snd ka = a" by (meson eq_key_imp_eq_value)
  next
    assume "snd ka = a"
    then have "(fst ka, a) \<in> set m" using assms(3) by (metis prod.collapse)
    with in_m d2 show "fst ka = key"
      by (metis (no_types, lifting) distinct_map fst_conv inj_on_def snd_conv)
  qed
qed

lemma scanElement_skip:
  "bindingKey name el = None \<Longrightarrow> scanElement name mh el = mh"
  by (auto simp add: scanElement_def bindingKey_def split: option.splits if_splits)

lemma scanElement_push:
  "bindingKey name el = Some key \<Longrightarrow> map_of m key = Some a \<Longrightarrow>
   scanElement name (m, h) el = (m, h[a := h ! a @ [ident el]])"
  by (auto simp add: scanElement_def bindingKey_def split: option.splits if_splits)

lemma scanElement_set:
  "bindingKey name el = Some key \<Longrightarrow> map_of m key = None \<Longrightarrow>
   scanElement name (m, h) el = (m @ [(key, length h)], h @ [[ident el]])"
  by (auto simp add: scanElement_def bindingKey_def split: option.splits if_splits)

lemma groupStep_skip:
  "bindingKey name el = None \<Longrightarrow> groupStep name v el = v"
  by (auto simp add: groupStep_def bindingKey_def split: option.splits if_splits)

lemma groupStep_push:
  "bindingKey name el = Some key \<Longrightarrow> key \<in> fst ` set v \<Longrightarrow>
   groupStep name v el = map (\<lambda>kg. if fst kg = key then (fst kg, snd kg @ [ident el]) else kg) v"
  by (auto simp add: groupStep_def bindingKey_def split: option.splits if_splits)

lemma groupStep_set:
  "bindingKey name el = Some key \<Longrightarrow> key \<notin> fst ` set v \<Longrightarrow>
   groupStep name v el = v @ [(key, [ident el])]"
  by (auto simp add: groupStep_def bindingKey_def split: option.splits if_splits)

lemma bindingKey_nonempty: "bindingKey name el = Some key \<Longrightarrow> key \<noteq> []"
  by (auto simp add: bindingKey_def split: option.splits if_splits)

lemma storeOK_scanElement:
  assumes "storeOK base m h" "base \<le> length h"
  shows "storeOK base (fst (scanElement name (m, h) el)) (snd (scanElement name (m, h) el))"
proof (cases "bindingKey name el")
  case None
  then show ?thesis using assms by (simp add: scanElement_skip)
next
  case (Some key)
  show ?thesis
  proof (cases "map_of m key")
    case None
    have "key \<notin> fst ` set m" using None by (simp add: map_of_eq_None_iff)
    moreover have "length h \<notin> snd ` set m"
      using assms by (auto simp add: storeOK_def list_all_iff)
    ultimately show ?thesis
      using assms Some None 
      by (auto simp add: scanElement_set storeOK_def list_all_iff)
  next
    case (Some a)
    with \<open>bindingKey name el = Some key\<close> assms show ?thesis
      by (simp add: scanElement_push storeOK_def)
  qed
qed

lemma view_scanElement:
  assumes "storeOK base m h"
  shows "view (fst (scanElement name (m, h) el)) (snd (scanElement name (m, h) el))
       = groupStep name (view m h) el"
proof (cases "bindingKey name el")
  case None
  then show ?thesis by (simp add: scanElement_skip groupStep_skip)
next
  case (Some key)
  have keys: "fst ` set (view m h) = fst ` set m" by (force simp add: view_def)
  show ?thesis
  proof (cases "map_of m key")
    case None
    have notin: "key \<notin> fst ` set (view m h)" using None keys by (simp add: map_of_eq_None_iff)
    have "\<And>ka. ka \<in> set m \<Longrightarrow> (h @ [[ident el]]) ! snd ka = h ! snd ka"
      using assms by (simp add: storeOK_def list_all_iff nth_append)
    then have "view (m @ [(key, length h)]) (h @ [[ident el]]) = view m h @ [(key, [ident el])]"
      by (simp add: view_def)
    then show ?thesis using Some None notin by (simp add: scanElement_set groupStep_set)
  next
    case (Some a)
    have isin: "key \<in> fst ` set (view m h)"
      using Some keys by (metis domI dom_map_of_conv_image_fst)
    have "view m (h[a := h ! a @ [ident el]])
        = map (\<lambda>kg. if fst kg = key then (fst kg, snd kg @ [ident el]) else kg) (view m h)"
      unfolding view_def map_map
    proof (rule map_cong [OF refl])
      fix ka assume ka: "ka \<in> set m"
      have lt: "snd ka < length h" using assms ka by (simp add: storeOK_def list_all_iff)
      show "(fst ka, h[a := h ! a @ [ident el]] ! snd ka) =
            ((\<lambda>kg. if fst kg = key then (fst kg, snd kg @ [ident el]) else kg) \<circ>
             (\<lambda>ka. (fst ka, h ! snd ka))) ka"
        using storeOK_key_addr [OF assms Some ka] lt by (auto simp add: nth_list_update)
    qed
    then show ?thesis
      using \<open>bindingKey name el = Some key\<close> Some isin
      by (simp add: scanElement_push groupStep_push)
  qed
qed

lemma below_base_scanElement:
  assumes "storeOK base m h" "base \<le> length h"
  shows "take base (snd (scanElement name (m, h) el)) = take base h \<and>
         length h \<le> length (snd (scanElement name (m, h) el))"
proof (cases "bindingKey name el")
  case None
  then show ?thesis by (simp add: scanElement_skip)
next
  case (Some key)
  show ?thesis
  proof (cases "map_of m key")
    case None
    with Some assms show ?thesis by (simp add: scanElement_set)
  next
    case (Some a)
    then have "(key, a) \<in> set m" by (rule map_of_SomeD)
    then have "base \<le> a" using assms by (auto simp add: storeOK_def list_all_iff)
    then show ?thesis using \<open>bindingKey name el = Some key\<close> Some
      by (simp add: scanElement_push)
  qed
qed

lemma foldl_scanElement:
  assumes "storeOK base m h" "base \<le> length h"
  shows "storeOK base (fst (foldl (scanElement name) (m, h) els))
                      (snd (foldl (scanElement name) (m, h) els)) \<and>
         view (fst (foldl (scanElement name) (m, h) els)) (snd (foldl (scanElement name) (m, h) els))
           = foldl (groupStep name) (view m h) els \<and>
         take base (snd (foldl (scanElement name) (m, h) els)) = take base h \<and>
         length h \<le> length (snd (foldl (scanElement name) (m, h) els))"
  using assms
proof (induction els arbitrary: m h)
  case Nil
  then show ?case by simp
next
  case (Cons el els)
  obtain m' h' where step: "scanElement name (m, h) el = (m', h')" by (cases "scanElement name (m, h) el")
  have ok: "storeOK base m' h'" using storeOK_scanElement [of base m h name el] Cons.prems step by simp
  have vw: "view m' h' = groupStep name (view m h) el"
    using view_scanElement [of base m h name el] Cons.prems(1) step by simp
  have bb: "take base h' = take base h" "length h \<le> length h'"
    using below_base_scanElement [of base m h name el] Cons.prems step by simp_all
  have le: "base \<le> length h'" using bb(2) Cons.prems(2) by simp
  from Cons.IH [of m' h'] ok le show ?case using step vw bb by simp
qed

lemma scanDocument_store:
  "storeOK (length (heap s)) (accessMap (scanDocument s)) (heap (scanDocument s)) \<and>
   indexView (scanDocument s) = groupedIndex (attr (config s)) (document s) \<and>
   take (length (heap s)) (heap (scanDocument s)) = heap s \<and>
   length (heap s) \<le> length (heap (scanDocument s))"
proof -
  have ok: "storeOK (length (heap s)) [] (heap s)" by (simp add: storeOK_def)
  show ?thesis
    using foldl_scanElement [of "length (heap s)" "[]" "heap s" "attr (config s)" "querySelectorAll (document s) (attr (config s))"] ok
    by (simp add: scanDocument_def Let_def indexView_def view_def groupedIndex_def)
qed

section \<open>The index of a document\<close>

lemma boundTo_snoc:
  "boundTo name key (els @ [el]) =
     boundTo name key els @ (if bindingKey name el = Some key then [ident el] else [])"
  by (simp add: boundTo_def)

lemma boundTo_empty_iff:
  "boundTo name key els = [] \<longleftrightarrow> (\<forall>n \<in> set els. bindingKey name n \<noteq> Some key)"
  by (simp add: boundTo_def filter_empty_conv)

lemma boundTo_querySelectorAll:
  "boundTo name key (querySelectorAll doc name) = boundTo name key doc"
proof -
  have "\<And>n. (getAttribute n name \<noteq> None \<and> bindingKey name n = Some key)
            = (bindingKey name n = Some key)"
    by (auto simp add: bindingKey_def split: option.splits)
  then show ?thesis by (simp add: boundTo_def querySelectorAll_def)
qed

lemma grouped_groupStep:
  assumes "grouped name els v"
  shows "grouped name (els @ [el]) (groupStep name v el)"
proof (cases "bindingKey name el")
  case None
  then show ?thesis using assms by (auto simp add: groupStep_skip grouped_def boundTo_snoc)
next
  case (Some key)
  show ?thesis
  proof (cases "key \<in> fst ` set v")
    case True
    let ?f = "\<lambda>kg. if fst kg = key then (fst kg, snd kg @ [ident el]) else kg"
    have fstf: "\<And>kg. fst (?f kg) = fst kg" by simp
    have step: "groupStep name v el = map ?f v" using Some True by (rule groupStep_push)
    have keys: "map fst (map ?f v) = map fst v" by (simp add: comp_def fstf cong: map_cong)
    have "\<forall>kg \<in> set v. snd (?f kg) = boundTo name (fst (?f kg)) (els @ [el]) \<and> snd (?f kg) \<noteq> []"
      using assms Some by (auto simp add: grouped_def boundTo_snoc)
    then have groups: "\<forall>kg \<in> set (map ?f v).
        snd kg = boundTo name (fst kg) (els @ [el]) \<and> snd kg \<noteq> []"
      unfolding set_map by blast
    have "fst ` set (map ?f v) = fst ` set v" using keys by (metis set_map)
    then have complete: "\<forall>n \<in> set (els @ [el]). \<forall>k. bindingKey name n = Some k \<longrightarrow>
        k \<in> fst ` set (map ?f v)"
      using assms Some True by (auto simp add: grouped_def)
    show ?thesis unfolding step grouped_def using assms keys groups complete
      by (simp only: grouped_def)
  next
    case False
    have step: "groupStep name v el = v @ [(key, [ident el])]" using Some False by (rule groupStep_set)
    have "\<forall>n \<in> set els. bindingKey name n \<noteq> Some key"
      using assms False by (auto simp add: grouped_def)
    then have e: "boundTo name key els = []" by (simp add: boundTo_empty_iff)
    have others: "\<forall>kg \<in> set v. fst kg \<noteq> key" using False by auto
    show ?thesis unfolding step using assms Some False e others
      by (auto simp add: grouped_def boundTo_snoc)
  qed
qed

lemma grouped_foldl: "grouped name els (foldl (groupStep name) [] els)"
proof (induction els rule: rev_induct)
  case Nil
  show ?case by (simp add: grouped_def)
next
  case (snoc el els)
  then show ?case using grouped_groupStep [of name els _ el] by simp
qed

lemma grouped_groupedIndex:
  "kg \<in> set (groupedIndex name doc) \<Longrightarrow> snd kg = boundTo name (fst kg) doc \<and> snd kg \<noteq> []"
  "distinct (map fst (groupedIndex name doc))"
  using grouped_foldl [of name "querySelectorAll doc name"]
  by (auto simp add: grouped_def groupedIndex_def boundTo_querySelectorAll)

lemma boundTo_member:
  "el \<in> set (boundTo name key doc) \<Longrightarrow>
   \<exists>n \<in> set doc. ident n = el \<and> (\<exists>v. getAttribute n name = Some v \<and> v \<noteq> [] \<and> key = toLowerCase v)"
  by (auto simp add: boundTo_def bindingKey_def toLowerCase_def split: option.splits if_splits)

lemma boundTo_key_nonempty: "boundTo name key doc \<noteq> [] \<Longrightarrow> key \<noteq> []"
  by (auto simp add: boundTo_def filter_empty_conv dest: bindingKey_nonempty)

section \<open>The listeners branch by branch, and the texts of the hints\<close>

lemma digit_key:
  assumes "1 \<le> d" "d \<le> 9"
  shows "isDigit1to9 (numberToString d) \<and> parseInt (numberToString d) = d \<and>
         length (numberToString d) = 1"
proof -
  have "d \<in> {1, 2, 3, 4, 5, 6, 7, 8, 9}" using assms by auto
  then show ?thesis
    by (auto simp add: numberToString.simps digitChar_def isDigit1to9_def parseInt_def
        digitValue_def)
qed

lemma isDigit1to9_length: "isDigit1to9 key \<Longrightarrow> length key = 1"
  by (auto simp add: isDigit1to9_def split: list.splits)

lemma length1_not_named: "length key = 1 \<Longrightarrow> key \<noteq> ''Escape'' \<and> key \<noteq> ''Alt''"
  by auto

lemma effects_triggerElement: "effects (triggerElement el s) = effects s @ triggered el"
  by (simp add: triggerElement_def triggered_def)

lemma digit_branch:
  assumes "pendingGroup s = Some a" "isDigit1to9 key"
  shows "keydownListener key s =
           (resetMnemonics (if parseInt key - 1 < length (heap s ! a)
                            then triggerElement ((heap s ! a) ! (parseInt key - 1)) s else s),
            False)"
  using assms length1_not_named [OF isDigit1to9_length [OF assms(2)]]
  by (simp add: keydownListener_def Let_def)

lemma letter_branch:
  assumes "isAltActive s" "length key = 1" "\<not> (pendingGroup s \<noteq> None \<and> isDigit1to9 key)"
  shows "keydownListener key s =
           (case map_of (accessMap s) (toLowerCase key) of
              None \<Rightarrow> (s, False)
            | Some a \<Rightarrow>
                if length (heap s ! a) = 0 then (s, False)
                else if length (heap s ! a) = 1
                then (resetMnemonics (triggerElement ((heap s ! a) ! 0) s), True)
                else (markMnemonics True (Some (toLowerCase key)) None (s\<lparr>pendingGroup := Some a\<rparr>),
                      True))"
  using assms length1_not_named [OF assms(2)]
  by (auto simp add: keydownListener_def Let_def split: option.split)

lemma labelFor_shown:
  assumes "activeKey = None \<or> activeKey = Some [] \<or> activeKey = Some key"
  shows "labelFor s activeKey None key els iel =
          [\<lparr>classList = [''mnemo-label''],
            textContent = (if length els > 1 then toUpperCase key @ numberToString (fst iel + 1)
                           else toUpperCase key),
            style = inlineStyle s (snd iel), removeOnAnimationEnd = False\<rparr>]"
  using assms by (auto simp add: labelFor_def)

lemma labelFor_hidden:
  assumes "k \<noteq> []" "key \<noteq> k"
  shows "labelFor s (Some k) classes key els iel = []"
  using assms by (simp add: labelFor_def)

lemma concat_map_singleton: "concat (map (\<lambda>x. [f x]) xs) = map f xs"
  by (induction xs) simp_all

lemma group_texts:
  assumes "activeKey = None \<or> activeKey = Some [] \<or> activeKey = Some key"
  shows "map textContent (concat (map (labelFor s activeKey None key els) (enumerate 0 els))) =
           (if length els > 1 then numberedHints key (length els)
            else replicate (length els) (toUpperCase key))"
proof -
  let ?mk = "\<lambda>iel. \<lparr>classList = [''mnemo-label''],
            textContent = (if length els > 1 then toUpperCase key @ numberToString (fst iel + 1)
                           else toUpperCase key),
            style = inlineStyle s (snd iel), removeOnAnimationEnd = False\<rparr>"
  have "labelFor s activeKey None key els = (\<lambda>iel. [?mk iel])"
    by (rule ext) (rule labelFor_shown [OF assms])
  then have "concat (map (labelFor s activeKey None key els) (enumerate 0 els)) = map ?mk (enumerate 0 els)"
    by (simp only: concat_map_singleton)
  moreover have "map (\<lambda>iel. toUpperCase key @ numberToString (fst iel + 1)) (enumerate 0 els)
      = map (\<lambda>i. toUpperCase key @ numberToString (i + 1)) [0..<length els]"
  proof -
    have "map (\<lambda>iel. toUpperCase key @ numberToString (fst iel + 1)) (enumerate 0 els)
      = map (\<lambda>i. toUpperCase key @ numberToString (i + 1)) (map fst (enumerate 0 els))"
      by (simp only: map_map comp_def)
    then show ?thesis by (simp only: map_fst_enumerate) simp
  qed
  moreover have "map (\<lambda>iel. toUpperCase key) (enumerate 0 els) = replicate (length els) (toUpperCase key)"
    by (simp add: map_replicate_const)
  ultimately show ?thesis
    by (simp add: numberedHints_def comp_def)
qed

lemma labelFor_visible:
  "list_all (\<lambda>n. classList n = [''mnemo-label'']) (labelFor s activeKey None key els iel)"
  by (simp add: labelFor_def Let_def)

lemma newLabels_visible:
  "list_all (\<lambda>n. classList n = [''mnemo-label'']) (newLabels s activeKey None)"
  using labelFor_visible by (auto simp add: newLabels_def Let_def list_all_iff)

lemma visibleHints_markMnemonics:
  "visibleHints (markMnemonics True activeKey None s) = newLabels s activeKey None"
proof -
  have old: "filter (\<lambda>n. ''mnemo-label'' \<in> set (classList n) \<and> ''fade-out'' \<notin> set (classList n))
               (map fadeOut (labels s)) = []"
    using fadeOut_exiting by (auto simp add: filter_empty_conv simp del: set_simps)
  have new: "filter (\<lambda>n. ''mnemo-label'' \<in> set (classList n) \<and> ''fade-out'' \<notin> set (classList n))
               (newLabels s activeKey None) = newLabels s activeKey None"
  proof (rule filter_True, rule ballI)
    fix n assume "n \<in> set (newLabels s activeKey None)"
    then have "classList n = [''mnemo-label'']"
      using newLabels_visible [of s activeKey] by (simp add: list_all_iff)
    then show "''mnemo-label'' \<in> set (classList n) \<and> ''fade-out'' \<notin> set (classList n)"
      by simp
  qed
  show ?thesis
    unfolding visibleHints_def labels_markMnemonics if_True filter_append old new by simp
qed

lemma newLabels_all_texts:
  "map textContent (newLabels s None None) =
     concat (map (\<lambda>kg. if length (snd kg) > 1 then numberedHints (fst kg) (length (snd kg))
                        else replicate (length (snd kg)) (toUpperCase (fst kg))) (indexView s))"
proof -
  have g: "\<And>key els. map textContent (concat (map (labelFor s None None key els) (enumerate 0 els))) =
           (if length els > 1 then numberedHints key (length els)
            else replicate (length els) (toUpperCase key))"
    by (rule group_texts) simp
  have "map textContent (newLabels s None None) =
        concat (map (\<lambda>ka. map textContent
          (concat (map (labelFor s None None (fst ka) (heap s ! snd ka))
                       (enumerate 0 (heap s ! snd ka))))) (accessMap s))"
    by (simp only: newLabels_def Let_def map_concat map_map comp_def)
  also have "\<dots> = concat (map (\<lambda>ka. if length (heap s ! snd ka) > 1
                        then numberedHints (fst ka) (length (heap s ! snd ka))
                        else replicate (length (heap s ! snd ka)) (toUpperCase (fst ka))) (accessMap s))"
    by (simp only: g)
  finally show ?thesis by (simp add: indexView_def comp_def cong: if_cong)
qed

lemma concat_map_single_key:
  assumes "distinct (map fst m)" "map_of m k = Some a"
    and "\<And>ka. ka \<in> set m \<Longrightarrow> fst ka \<noteq> k \<Longrightarrow> F ka = []"
  shows "concat (map F m) = F (k, a)"
  using assms
proof (induction m)
  case Nil
  then show ?case by simp
next
  case (Cons x m)
  show ?case
  proof (cases "fst x = k")
    case True
    then have x: "x = (k, a)" using Cons.prems(2) by (cases x) simp
    have "\<And>ka. ka \<in> set m \<Longrightarrow> fst ka \<noteq> k"
      using Cons.prems(1) True by (auto simp add: image_iff)
    then have "\<And>ka. ka \<in> set m \<Longrightarrow> F ka = []" using Cons.prems(3) by simp
    then have "concat (map F m) = []" by simp
    then show ?thesis using x by simp
  next
    case False
    then have "F x = []" using Cons.prems(3) by simp
    moreover have "map_of m k = Some a" using Cons.prems(2) False by (cases x) (simp split: if_splits)
    moreover have "distinct (map fst m)" using Cons.prems(1) by simp
    ultimately show ?thesis using Cons.IH Cons.prems(3) by simp
  qed
qed

lemma newLabels_group_texts:
  assumes "distinct (map fst (accessMap s))" "map_of (accessMap s) k = Some a" "k \<noteq> []"
  shows "map textContent (newLabels s (Some k) None) =
           (if length (heap s ! a) > 1 then numberedHints k (length (heap s ! a))
            else replicate (length (heap s ! a)) (toUpperCase k))"
proof -
  let ?F = "\<lambda>ka. concat (map (labelFor s (Some k) None (fst ka) (heap s ! snd ka))
                               (enumerate 0 (heap s ! snd ka)))"
  have "\<And>ka. ka \<in> set (accessMap s) \<Longrightarrow> fst ka \<noteq> k \<Longrightarrow> ?F ka = []"
    using assms(3) by (simp add: labelFor_hidden)
  from concat_map_single_key [of "accessMap s" k a ?F, OF assms(1,2) this]
  have "newLabels s (Some k) None = ?F (k, a)"
    by (simp add: newLabels_def Let_def)
  then show ?thesis using group_texts [of "Some k" k s "heap s ! a"] by simp
qed

section \<open>Rescans, the store and the session\<close>

lemma accessMap_get_indexView: "accessMap_get s key = map_of (indexView s) key"
proof -
  have "map_of (map (\<lambda>ka. (fst ka, f (snd ka))) m) key = map_option f (map_of m key)" for f :: "addr \<Rightarrow> elem list" and m
    by (induction m) auto
  then show ?thesis by (simp add: accessMap_get_def indexView_def)
qed

lemma map_of_groupedIndex:
  "map_of (groupedIndex name doc) key =
     (if boundTo name key doc = [] then None else Some (boundTo name key doc))"
proof -
  let ?els = "querySelectorAll doc name"
  have g: "grouped name ?els (groupedIndex name doc)"
    using grouped_foldl [of name ?els] by (simp add: groupedIndex_def)
  show ?thesis
  proof (cases "map_of (groupedIndex name doc) key")
    case None
    then have "key \<notin> fst ` set (groupedIndex name doc)" by (simp add: map_of_eq_None_iff)
    then have "\<forall>n \<in> set ?els. bindingKey name n \<noteq> Some key"
      using g by (auto simp add: grouped_def)
    then have "boundTo name key ?els = []" by (simp add: boundTo_empty_iff)
    then show ?thesis using None by (simp add: boundTo_querySelectorAll)
  next
    case (Some grp)
    then have "(key, grp) \<in> set (groupedIndex name doc)" by (rule map_of_SomeD)
    from grouped_groupedIndex(1) [OF this] show ?thesis using Some by auto
  qed
qed

lemma wellFormed_iff:
  "wellFormed s \<longleftrightarrow>
     storeOK 0 (accessMap s) (heap s) \<and> (\<forall>a. pendingGroup s = Some a \<longrightarrow> a < length (heap s))"
  by (simp add: wellFormed_def split: option.split)

lemma storeOK_mono: "storeOK base m h \<Longrightarrow> storeOK 0 m h"
  by (simp add: storeOK_def list_all_iff)

lemma wellFormed_scanDocument:
  assumes "wellFormed s"
  shows "wellFormed (scanDocument s)"
    and "a < length (heap s) \<Longrightarrow> heap (scanDocument s) ! a = heap s ! a"
proof -
  note st = scanDocument_store [of s]
  from st have ok: "storeOK 0 (accessMap (scanDocument s)) (heap (scanDocument s))"
    using storeOK_mono by blast
  from st have le: "length (heap s) \<le> length (heap (scanDocument s))" by simp
  show "wellFormed (scanDocument s)"
    using assms ok le by (auto simp add: wellFormed_iff)
  from st have tk: "take (length (heap s)) (heap (scanDocument s)) = heap s" by simp
  show "heap (scanDocument s) ! a = heap s ! a" if "a < length (heap s)"
    using that nth_take [of a "length (heap s)" "heap (scanDocument s)"] tk by simp
qed

lemma wellFormed_document_update [simp]: "wellFormed (s\<lparr>document := d\<rparr>) = wellFormed s"
  by (simp add: wellFormed_iff)

lemma rescans_keep_group:
  assumes "wellFormed s" "pendingGroup s = Some a"
  shows "wellFormed (run s (map MutationBatch docs)) \<and>
         pendingGroup (run s (map MutationBatch docs)) = Some a \<and>
         heap (run s (map MutationBatch docs)) ! a = heap s ! a \<and>
         isAltActive (run s (map MutationBatch docs)) = isAltActive s \<and>
         effects (run s (map MutationBatch docs)) = effects s \<and>
         config (run s (map MutationBatch docs)) = config s"
  using assms
proof (induction docs arbitrary: s)
  case Nil
  then show ?case by (simp add: run_def)
next
  case (Cons d docs)
  let ?t = "scanDocument (s\<lparr>document := d\<rparr>)"
  have wf0: "wellFormed (s\<lparr>document := d\<rparr>)" using Cons.prems(1) by simp
  have lt: "a < length (heap s)" using Cons.prems by (simp add: wellFormed_iff)
  have wf: "wellFormed ?t" using wellFormed_scanDocument(1) [OF wf0] .
  have pg: "pendingGroup ?t = Some a" using Cons.prems(2) by simp
  have hp: "heap ?t ! a = heap s ! a"
    using wellFormed_scanDocument(2) [OF wf0, of a] lt by simp
  have r: "run s (map MutationBatch (d # docs)) = run ?t (map MutationBatch docs)"
    by (simp add: run_def)
  from Cons.IH [OF wf pg] show ?case unfolding r using hp by simp
qed

lemma rescans_index:
  assumes "docs \<noteq> []"
  shows "indexView (run s (map MutationBatch docs)) =
           groupedIndex (attr (config s)) (last docs)"
proof -
  from assms obtain ds d where docs: "docs = ds @ [d]" by (metis rev_exhaust)
  have cfg: "config (run t (map MutationBatch xs)) = config t" for t xs
    unfolding run_def by (induction xs arbitrary: t) simp_all
  have "run s (map MutationBatch docs) =
          scanDocument ((run s (map MutationBatch ds))\<lparr>document := d\<rparr>)"
    by (simp add: docs run_def)
  then show ?thesis
    using scanDocument_store [of "(run s (map MutationBatch ds))\<lparr>document := d\<rparr>"] cfg [of s ds]
    by (simp add: docs)
qed

lemma indexView_cong:
  "accessMap t = accessMap s \<Longrightarrow> heap t = heap s \<Longrightarrow> indexView t = indexView s"
  by (simp add: indexView_def)

lemma release_and_rearm:
  "Armed (run s [KeyUp ''Alt'', KeyDown ''Alt'']) \<and>
   indexView (run s [KeyUp ''Alt'', KeyDown ''Alt'']) = indexView s \<and>
   config (run s [KeyUp ''Alt'', KeyDown ''Alt'']) = config s"
  by (simp add: run_def keyupListener_def keydownListener_def Armed_def indexView_def)

lemma letter_opens_group:
  assumes "isAltActive s" "length key = 1" "\<not> (pendingGroup s \<noteq> None \<and> isDigit1to9 key)"
    and "accessMap_get s (toLowerCase key) = Some g" "2 \<le> length g"
  shows "\<exists>a. map_of (accessMap s) (toLowerCase key) = Some a \<and> heap s ! a = g \<and>
           keydownListener key s =
             (markMnemonics True (Some (toLowerCase key)) None (s\<lparr>pendingGroup := Some a\<rparr>), True)"
proof -
  from assms(4) obtain a where a: "map_of (accessMap s) (toLowerCase key) = Some a" "heap s ! a = g"
    by (auto simp add: accessMap_get_def)
  then show ?thesis using letter_branch [OF assms(1-3)] assms(5) by auto
qed

lemma letter_triggers_single:
  assumes "isAltActive s" "length key = 1" "\<not> (pendingGroup s \<noteq> None \<and> isDigit1to9 key)"
    and "accessMap_get s (toLowerCase key) = Some g" "length g = 1"
  shows "keydownListener key s = (resetMnemonics (triggerElement (g ! 0) s), True)"
proof -
  from assms(4) obtain a where a: "map_of (accessMap s) (toLowerCase key) = Some a" "heap s ! a = g"
    by (auto simp add: accessMap_get_def)
  then show ?thesis using letter_branch [OF assms(1-3)] assms(5) by simp
qed

lemma toLowerCase_length [simp]: "length (toLowerCase key) = length key"
  by (simp add: toLowerCase_def)

lemma run_append: "run s (xs @ ys) = run (run s xs) ys"
  by (simp add: run_def)

lemma wellFormed_cong:
  "accessMap t = accessMap s \<Longrightarrow> heap t = heap s \<Longrightarrow> pendingGroup t = pendingGroup s \<Longrightarrow>
   wellFormed t = wellFormed s"
  by (simp add: wellFormed_iff)

lemma wellFormed_resetMnemonics: "wellFormed s \<Longrightarrow> wellFormed (resetMnemonics s)"
  by (simp add: wellFormed_iff)

lemma wellFormed_keydownListener:
  assumes "wellFormed s"
  shows "wellFormed (fst (keydownListener key s))"
proof -
  have reset: "wellFormed (resetMnemonics t)" if "accessMap t = accessMap s" "heap t = heap s" for t
    using assms that by (simp add: wellFormed_iff)
  have mark: "wellFormed (markMnemonics b k c t)"
    if "accessMap t = accessMap s" "heap t = heap s" "pendingGroup t = pendingGroup s" for b k c t
    using assms that by (simp add: wellFormed_iff)
  have letter: "wellFormed (markMnemonics True k None (s\<lparr>pendingGroup := Some a\<rparr>))"
    if "map_of (accessMap s) k' = Some a" for k k' a
  proof -
    have "(k', a) \<in> set (accessMap s)" using that by (rule map_of_SomeD)
    then have "a < length (heap s)" using assms by (auto simp add: wellFormed_iff storeOK_def list_all_iff)
    then show ?thesis using assms by (simp add: wellFormed_iff)
  qed
  show ?thesis
    using assms reset mark letter
    by (auto simp add: keydownListener_def Let_def split: option.split)
qed

lemma wellFormed_step: "wellFormed s \<Longrightarrow> wellFormed (step s ev)"
proof (cases ev)
  case (KeyDown key)
  assume "wellFormed s"
  then show ?thesis using KeyDown by (simp add: wellFormed_keydownListener)
next
  case (KeyUp key)
  assume "wellFormed s"
  then show ?thesis using KeyUp by (simp add: keyupListener_def wellFormed_resetMnemonics)
next
  case (MutationBatch doc)
  assume "wellFormed s"
  then show ?thesis using MutationBatch wellFormed_scanDocument(1) [of "s\<lparr>document := doc\<rparr>"] by simp
next
  case (AnimationEnd i)
  assume "wellFormed s"
  then show ?thesis using AnimationEnd by (simp add: animationEnd_def wellFormed_iff)
qed

lemma wellFormed_run: "wellFormed s \<Longrightarrow> wellFormed (run s evs)"
  unfolding run_def by (induction evs arbitrary: s) (simp_all add: wellFormed_step)

lemma wellFormed_init: "wellFormed (initMnemonics userConfig (moduleLoaded doc sx sy))"
proof -
  have "wellFormed (t\<lparr>config := c\<rparr>) = wellFormed t" for t c
    by (simp add: wellFormed_iff)
  moreover have "wellFormed (moduleLoaded doc sx sy)"
    by (simp add: wellFormed_iff moduleLoaded_def storeOK_def)
  ultimately show ?thesis
    unfolding initMnemonics_def by (intro wellFormed_scanDocument(1)) simp
qed

lemma letter_branch_preventDefault:
  assumes "isAltActive s" "length key = 1" "\<not> (pendingGroup s \<noteq> None \<and> isDigit1to9 key)"
  shows "snd (keydownListener key s) =
           (case accessMap_get s (toLowerCase key) of None \<Rightarrow> False | Some g \<Rightarrow> g \<noteq> [])"
  using letter_branch [OF assms]
  by (simp add: accessMap_get_def split: option.split)

lemma inline_colours:
  "list_all (\<lambda>n. map_of (style n) ''backgroundColor'' = Some (Lit ''#000'') \<and>
                  map_of (style n) ''color'' = Some (Lit ''#fff''))
     (newLabels s activeKey None)"
  by (auto simp add: newLabels_def Let_def list_all_iff labelFor_def inlineStyle_def)

section \<open>The hints in the body\<close>

lemma markedExiting_fadeOut:
  "''mnemo-label'' \<in> set (classList n) \<Longrightarrow> markedExiting n (fadeOut n)"
  by (auto simp add: markedExiting_def fadeOut_def classList_add_def)

lemma fadeOut_tagged:
  "''mnemo-label'' \<in> set (classList n) \<Longrightarrow> ''mnemo-label'' \<in> set (classList (fadeOut n))"
  by (simp add: fadeOut_def classList_add_def)

lemma retired_resetMnemonics:
  assumes "hintsTagged s"
  shows "list_all2 markedExiting (labels s) (labels (resetMnemonics s))"
  using assms
  by (simp add: hintsTagged_def list_all_iff list_all2_map2 list_all2_same markedExiting_fadeOut)

lemma classList_add_keeps: "c \<in> set cs \<Longrightarrow> c \<in> set (foldl (\<lambda>l c. classList_add c l) cs ds)"
  by (induction ds arbitrary: cs) (simp_all add: classList_add_def)

lemma labelFor_tagged:
  "list_all (\<lambda>n. ''mnemo-label'' \<in> set (classList n)) (labelFor s activeKey classes key els iel)"
  using classList_add_keeps [of "''mnemo-label''" "[''mnemo-label'']"]
  by (simp add: labelFor_def Let_def split: option.split)

lemma newLabels_tagged:
  "list_all (\<lambda>n. ''mnemo-label'' \<in> set (classList n)) (newLabels s activeKey classes)"
  using labelFor_tagged by (auto simp add: newLabels_def Let_def list_all_iff)

lemma hintsTagged_markMnemonics:
  assumes "hintsTagged s"
  shows "hintsTagged (markMnemonics b k c s)"
  using assms newLabels_tagged [of s k c] fadeOut_tagged
  by (auto simp add: hintsTagged_def labels_markMnemonics list_all_iff)

lemma hintsTagged_cong: "labels t = labels s \<Longrightarrow> hintsTagged t = hintsTagged s"
  by (simp add: hintsTagged_def)

lemma hintsTagged_resetMnemonics: "hintsTagged s \<Longrightarrow> hintsTagged (resetMnemonics s)"
  using fadeOut_tagged by (auto simp add: hintsTagged_def list_all_iff)

lemma hintsTagged_keydownListener:
  assumes "hintsTagged s"
  shows "hintsTagged (fst (keydownListener key s))"
proof -
  have reset: "hintsTagged (resetMnemonics t)" if "labels t = labels s" for t
    using assms that hintsTagged_resetMnemonics [of t] by (simp add: hintsTagged_def)
  have mark: "hintsTagged (markMnemonics b k c t)" if "labels t = labels s" for b k c t
    using assms that hintsTagged_markMnemonics [of t b k c] by (simp add: hintsTagged_def)
  show ?thesis
    using assms reset mark
    by (auto simp add: keydownListener_def Let_def split: option.split)
qed

lemma hintsTagged_step: "hintsTagged s \<Longrightarrow> hintsTagged (step s ev)"
proof (cases ev)
  case (KeyDown key)
  assume "hintsTagged s"
  then show ?thesis using KeyDown by (simp add: hintsTagged_keydownListener)
next
  case (KeyUp key)
  assume "hintsTagged s"
  then show ?thesis using KeyUp by (simp add: keyupListener_def hintsTagged_resetMnemonics)
next
  case (MutationBatch doc)
  assume "hintsTagged s"
  then show ?thesis using MutationBatch by (simp add: hintsTagged_def)
next
  case (AnimationEnd i)
  assume a: "hintsTagged s"
  have "set (take i (labels s) @ drop (Suc i) (labels s)) \<subseteq> set (labels s)"
    using set_take_subset set_drop_subset by fastforce
  then show ?thesis using a AnimationEnd
    by (auto simp add: hintsTagged_def animationEnd_def list_all_iff)
qed

lemma hintsTagged_run: "hintsTagged s \<Longrightarrow> hintsTagged (run s evs)"
  unfolding run_def by (induction evs arbitrary: s) (simp_all add: hintsTagged_step)

lemma hintsTagged_init: "hintsTagged (initMnemonics userConfig (moduleLoaded doc sx sy))"
  by (simp add: hintsTagged_def initMnemonics_def moduleLoaded_def)

section \<open>Hints in the Armed state\<close>

text \<open>
  In the sample session the modifier goes down in the Idle state. The key \<open>o\<close> has three
  elements, and its three hints read \<open>O1\<close>, \<open>O2\<close>, \<open>O3\<close>: an ordinal is appended although no
  letter has been chosen yet.
\<close>

theorem C1_armed_hints_counterexample:
  "Idle exampleIdle \<and> exampleArmed = fst (keydownListener ''Alt'' exampleIdle) \<and>
   Armed exampleArmed \<and>
   indexView exampleArmed = [(''s'', [1]), (''o'', [2, 3, 4])] \<and>
   map textContent (labels exampleArmed) = [''S'', ''O1'', ''O2'', ''O3''] \<and>
   ''O1'' \<noteq> toUpperCase ''o''"
  by code_simp

text \<open>
  Claim C1, as amended. When the modifier goes down in the Idle state, the session becomes
  Armed and one hint is created per bound element, key by key in the order of the index:
  the text is the upper-cased key alone when the key has exactly one element, and the
  upper-cased key followed by the element's ordinal, counted from 1, when the key has two
  or more elements.
\<close>

theorem C1_armed_hints:
  assumes "Idle s"
  shows "Armed (fst (keydownListener ''Alt'' s)) \<and>
         map textContent (visibleHints (fst (keydownListener ''Alt'' s))) =
           concat (map (\<lambda>kg. if length (snd kg) > 1
                               then numberedHints (fst kg) (length (snd kg))
                               else replicate (length (snd kg)) (toUpperCase (fst kg)))
                       (indexView s))"
proof -
  have k: "fst (keydownListener ''Alt'' s) = markMnemonics True None None (s\<lparr>isAltActive := True\<rparr>)"
    using assms by (simp add: keydownListener_def Idle_def)
  have "indexView (s\<lparr>isAltActive := True\<rparr>) = indexView s" by (simp add: indexView_def)
  then show ?thesis
    using assms unfolding k
    by (simp add: Armed_def Idle_def visibleHints_markMnemonics newLabels_all_texts)
qed

theorem C1_armed_hints_witness:
  "Idle exampleIdle \<and> Armed (fst (keydownListener ''Alt'' exampleIdle)) \<and>
   map textContent (visibleHints (fst (keydownListener ''Alt'' exampleIdle))) =
     [''S'', ''O1'', ''O2'', ''O3'']"
proof -
  have i: "Idle exampleIdle" by code_simp
  have v: "indexView exampleIdle = [(''s'', [1]), (''o'', [2, 3, 4])]" by code_simp
  have t: "toUpperCase ''s'' = ''S''"
    "numberedHints ''o'' (Suc (Suc (Suc 0))) = [''O1'', ''O2'', ''O3'']"
    by code_simp+
  from C1_armed_hints [OF i] show ?thesis using i v t by simp
qed

section \<open>The pending group across rescans\<close>

text \<open>
  In the sample session the group of \<open>o\<close> is pending with three elements when a fourth
  element bound to \<open>o\<close> is inserted. Pressing \<open>o\<close> once more, with no release of the modifier
  in between, resolves against the rebuilt index: the pending group now has four elements,
  and the digit 4 triggers the new one.
\<close>

theorem C2_letter_sees_rescan_counterexample:
  "pendingGroup_contents exampleDisambiguating = Some [2, 3, 4] \<and>
   exampleRepressed = run exampleDisambiguating [MutationBatch exampleDocGrown, KeyDown ''o''] \<and>
   isAltActive exampleRepressed \<and>
   pendingGroup_contents exampleRepressed = Some [2, 3, 4, 7] \<and>
   map textContent (visibleHints exampleRepressed) = [''O1'', ''O2'', ''O3'', ''O4''] \<and>
   effects (run exampleRepressed [KeyDown ''4'']) = triggered 7"
  by code_simp

text \<open>
  Claim C2, as amended. Let the session be Disambiguating with a pending group. Every
  sequence of index rebuilds leaves the session Disambiguating with the same array pending
  and with its contents and order unchanged, so a digit pressed next resolves against the
  group as it was captured. A letter always resolves against the index of the last rebuild:
  a letter with two or more elements there makes exactly these elements the pending group,
  after a release of the modifier and a new modifier-down, and also when it is pressed
  while the modifier is still held.
\<close>

theorem C2_group_frozen_across_rescans:
  assumes "wellFormed s" "Disambiguating s" "pendingGroup s = Some a"
  shows "Disambiguating (run s (map MutationBatch docs)) \<and>
         pendingGroup (run s (map MutationBatch docs)) = Some a \<and>
         pendingGroup_contents (run s (map MutationBatch docs)) = pendingGroup_contents s \<and>
         (1 \<le> d \<and> d \<le> 9 \<longrightarrow>
            effects (run s (map MutationBatch docs @ [KeyDown (numberToString d)])) =
              effects s @ (if d - 1 < length (heap s ! a) then triggered (heap s ! a ! (d - 1)) else [])) \<and>
         (docs \<noteq> [] \<and> length key = 1 \<and> \<not> isDigit1to9 key \<and>
          2 \<le> length (boundTo (attr (config s)) (toLowerCase key) (last docs)) \<longrightarrow>
            pendingGroup_contents
              (run s (map MutationBatch docs @ [KeyUp ''Alt'', KeyDown ''Alt'', KeyDown key])) =
              Some (boundTo (attr (config s)) (toLowerCase key) (last docs)) \<and>
            pendingGroup_contents (run s (map MutationBatch docs @ [KeyDown key])) =
              Some (boundTo (attr (config s)) (toLowerCase key) (last docs)))"
proof -
  let ?t = "run s (map MutationBatch docs)"
  note keep = rescans_keep_group [OF assms(1,3), of docs]
  have alt: "isAltActive ?t" using keep assms(2) by (simp add: Disambiguating_def)
  have pg: "pendingGroup ?t = Some a" using keep by simp
  have hp: "heap ?t ! a = heap s ! a" using keep by simp
  have dis: "Disambiguating ?t" using alt pg by (simp add: Disambiguating_def)
  have cont: "pendingGroup_contents ?t = pendingGroup_contents s"
    using pg hp assms(3) by (simp add: pendingGroup_contents_def)
  have digit: "effects (run s (map MutationBatch docs @ [KeyDown (numberToString d)])) =
              effects s @ (if d - 1 < length (heap s ! a) then triggered (heap s ! a ! (d - 1)) else [])"
    if "1 \<le> d" "d \<le> 9"
  proof -
    note dk = digit_key [OF that]
    have "keydownListener (numberToString d) ?t =
           (resetMnemonics (if d - 1 < length (heap s ! a)
                            then triggerElement ((heap s ! a) ! (d - 1)) ?t else ?t), False)"
      using digit_branch [OF pg, of "numberToString d"] dk hp by simp
    then show ?thesis using keep by (simp add: run_append run_def effects_triggerElement)
  qed
  have letter: "pendingGroup_contents
              (run s (map MutationBatch docs @ [KeyUp ''Alt'', KeyDown ''Alt'', KeyDown key])) =
              Some (boundTo (attr (config s)) (toLowerCase key) (last docs)) \<and>
            pendingGroup_contents (run s (map MutationBatch docs @ [KeyDown key])) =
              Some (boundTo (attr (config s)) (toLowerCase key) (last docs))"
    if ne: "docs \<noteq> []" and len: "length key = 1" and nd: "\<not> isDigit1to9 key"
      and many: "2 \<le> length (boundTo (attr (config s)) (toLowerCase key) (last docs))"
  proof -
    let ?g = "boundTo (attr (config s)) (toLowerCase key) (last docs)"
    let ?u = "run ?t [KeyUp ''Alt'', KeyDown ''Alt'']"
    have gne: "?g \<noteq> []" using many by auto
    have get_t: "accessMap_get ?t (toLowerCase key) = Some ?g"
      using gne by (simp add: accessMap_get_indexView rescans_index [OF ne] map_of_groupedIndex)
    have get_u: "accessMap_get ?u (toLowerCase key) = Some ?g"
      using get_t release_and_rearm [of ?t] by (simp add: accessMap_get_indexView)
    have armed: "isAltActive ?u" "pendingGroup ?u = None"
      using release_and_rearm [of ?t] by (simp_all add: Armed_def)
    have nd_t: "\<not> (pendingGroup ?t \<noteq> None \<and> isDigit1to9 key)" using nd by simp
    have nd_u: "\<not> (pendingGroup ?u \<noteq> None \<and> isDigit1to9 key)" using armed by simp
    from letter_opens_group [OF alt len nd_t get_t many]
    have 1: "pendingGroup_contents (fst (keydownListener key ?t)) = Some ?g"
      by (auto simp add: pendingGroup_contents_def)
    from letter_opens_group [OF armed(1) len nd_u get_u many]
    have 2: "pendingGroup_contents (fst (keydownListener key ?u)) = Some ?g"
      by (auto simp add: pendingGroup_contents_def)
    have r1: "run s (map MutationBatch docs @ [KeyDown key]) = fst (keydownListener key ?t)"
      by (simp add: run_append) (simp add: run_def)
    have r2: "run s (map MutationBatch docs @ [KeyUp ''Alt'', KeyDown ''Alt'', KeyDown key])
                = fst (keydownListener key ?u)"
      by (simp add: run_append) (simp add: run_def)
    show ?thesis unfolding r1 r2 using 1 2 by simp
  qed
  show ?thesis using dis pg cont digit letter by blast
qed

theorem C2_group_frozen_witness:
  "wellFormed exampleDisambiguating \<and> Disambiguating exampleDisambiguating \<and>
   pendingGroup exampleDisambiguating = Some 1 \<and>
   Disambiguating exampleMutated \<and>
   pendingGroup_contents exampleMutated = Some [2, 3, 4] \<and>
   effects (run exampleDisambiguating [MutationBatch exampleDocGrown, KeyDown ''2'']) = triggered 3 \<and>
   effects (run exampleDisambiguating [MutationBatch exampleDocGrown, KeyDown ''4'']) = [] \<and>
   pendingGroup_contents
     (run exampleDisambiguating
        [MutationBatch exampleDocGrown, KeyUp ''Alt'', KeyDown ''Alt'', KeyDown ''o'']) =
     Some [2, 3, 4, 7]"
proof -
  have wf: "wellFormed exampleDisambiguating" by code_simp
  have dis: "Disambiguating exampleDisambiguating" by code_simp
  have pg: "pendingGroup exampleDisambiguating = Some 1" by code_simp
  have facts:
    "heap exampleDisambiguating ! 1 = [2, 3, 4]"
    "pendingGroup_contents exampleDisambiguating = Some [2, 3, 4]"
    "effects exampleDisambiguating = []"
    "numberToString 2 = ''2''" "numberToString 4 = ''4''"
    "\<not> isDigit1to9 ''o''"
    "boundTo (attr (config exampleDisambiguating)) (toLowerCase ''o'') exampleDocGrown = [2, 3, 4, 7]"
    by code_simp+
  note inst = C2_group_frozen_across_rescans [OF wf dis pg, of "[exampleDocGrown]" _ "''o''"]
  from inst [of 2] inst [of 4] show ?thesis
    using wf dis pg facts by (simp add: exampleMutated_def)
qed

section \<open>Default handling of consumed keys\<close>

text \<open>
  Claim C3 says that a keydown consumed by the letter branch or by the digit branch has
  its default handling prevented. The letter branch does so (lemma
  \<open>letter_branch_preventDefault\<close>); the digit branch does not. In the sample session, with the
  group of \<open>o\<close> pending, the key \<open>2\<close> triggers the second element and returns the session to
  Idle, and the listener has not called \<^verbatim>\<open>preventDefault\<close>.
\<close>

theorem C3_digit_branch_no_preventDefault:
  "Disambiguating exampleDisambiguating \<and>
   keydownListener ''2'' exampleDisambiguating =
     (resetMnemonics (triggerElement 3 exampleDisambiguating), False) \<and>
   effects (fst (keydownListener ''2'' exampleDisambiguating)) = triggered 3 \<and>
   Idle (fst (keydownListener ''2'' exampleDisambiguating)) \<and>
   snd (keydownListener ''2'' exampleDisambiguating) = False"
proof -
  have d: "Disambiguating exampleDisambiguating" by code_simp
  have p: "pendingGroup exampleDisambiguating = Some 1" by code_simp
  have h: "heap exampleDisambiguating ! 1 = [2, 3, 4]" by code_simp
  have e: "effects exampleDisambiguating = []" by code_simp
  have k: "isDigit1to9 ''2'' \<and> parseInt ''2'' = 2" by code_simp
  from digit_branch [OF p, of "''2''"] k h
  have "keydownListener ''2'' exampleDisambiguating =
     (resetMnemonics (triggerElement 3 exampleDisambiguating), False)" by simp
  then show ?thesis using d e by (simp add: Idle_resetMnemonics effects_triggerElement)
qed

section \<open>Digits in the Disambiguating state\<close>

text \<open>
  Claim C4. In the Disambiguating state with the pending group \<open>g\<close>, the key of a digit
  \<open>d\<close> from 1 to 9 returns the session to Idle and clears the hints: every hint of the body
  is retired (it keeps its text, gets the class \<^verbatim>\<open>fade-out\<close> beside \<^verbatim>\<open>mnemo-label\<close>, and its
  removal is registered), none is created, and so none is left that is not fading out.
  When \<open>g\<close> has an element at position \<open>d - 1\<close>, exactly this element is triggered (focus,
  then an Enter keydown and keyup), and otherwise nothing is triggered. The hints of the
  body are the ones the module has created (\<open>hintsTagged\<close>), which holds in every state of
  a session (lemmas \<open>hintsTagged_init\<close> and \<open>hintsTagged_run\<close>).
\<close>

theorem C4_digit_key_in_Disambiguating:
  assumes "Disambiguating s" "pendingGroup s = Some a" "1 \<le> d" "d \<le> 9" "hintsTagged s"
  shows "let g = heap s ! a; s' = fst (keydownListener (numberToString d) s) in
           Idle s' \<and>
           list_all2 markedExiting (labels s) (labels s') \<and> visibleHints s' = [] \<and>
           effects s' = effects s @ (if d - 1 < length g then triggered (g ! (d - 1)) else [])"
proof -
  let ?t = "if d - 1 < length (heap s ! a) then triggerElement ((heap s ! a) ! (d - 1)) s else s"
  have k: "keydownListener (numberToString d) s = (resetMnemonics ?t, False)"
    using digit_key [OF assms(3,4)] digit_branch [OF assms(2), of "numberToString d"] by simp
  have l: "labels ?t = labels s" by simp
  then have "hintsTagged ?t" using assms(5) by (simp add: hintsTagged_def)
  from retired_resetMnemonics [OF this]
  have "list_all2 markedExiting (labels s) (labels (resetMnemonics ?t))" unfolding l .
  then show ?thesis
    unfolding k
    by (simp add: Let_def Idle_resetMnemonics visibleHints_resetMnemonics effects_triggerElement)
qed

theorem C4_digit_key_witness:
  "Disambiguating exampleDisambiguating \<and> hintsTagged exampleDisambiguating \<and>
   heap exampleDisambiguating ! 1 = [2, 3, 4] \<and>
   map textContent (visibleHints exampleDisambiguating) = [''O1'', ''O2'', ''O3''] \<and>
   effects (fst (keydownListener ''2'' exampleDisambiguating)) = triggered 3 \<and>
   effects (fst (keydownListener ''5'' exampleDisambiguating)) = [] \<and>
   Idle (fst (keydownListener ''2'' exampleDisambiguating)) \<and>
   Idle (fst (keydownListener ''5'' exampleDisambiguating)) \<and>
   list_all2 markedExiting (labels exampleDisambiguating)
     (labels (fst (keydownListener ''2'' exampleDisambiguating))) \<and>
   list_all2 markedExiting (labels exampleDisambiguating)
     (labels (fst (keydownListener ''5'' exampleDisambiguating))) \<and>
   visibleHints (fst (keydownListener ''2'' exampleDisambiguating)) = [] \<and>
   visibleHints (fst (keydownListener ''5'' exampleDisambiguating)) = [] \<and>
   map classList (labels (fst (keydownListener ''5'' exampleDisambiguating))) =
     replicate 7 [''mnemo-label'', ''fade-out'']"
proof -
  have d: "Disambiguating exampleDisambiguating" by code_simp
  have p: "pendingGroup exampleDisambiguating = Some 1" by code_simp
  have t: "hintsTagged exampleDisambiguating" by code_simp
  have h: "heap exampleDisambiguating ! 1 = [2, 3, 4]" by code_simp
  have e: "effects exampleDisambiguating = []" by code_simp
  have n2: "numberToString 2 = ''2''" and n5: "numberToString 5 = ''5''" by code_simp+
  have facts:
    "map textContent (visibleHints exampleDisambiguating) = [''O1'', ''O2'', ''O3'']"
    "map classList (labels (fst (keydownListener ''5'' exampleDisambiguating))) =
       replicate 7 [''mnemo-label'', ''fade-out'']"
    by code_simp+
  from C4_digit_key_in_Disambiguating [OF d p _ _ t, of 2]
       C4_digit_key_in_Disambiguating [OF d p _ _ t, of 5]
  show ?thesis using d t h e n2 n5 facts by (simp add: Let_def)
qed

section \<open>The colours of a hint\<close>

text \<open>
  Claim C5 says that a hint in the default presentation is painted with the colours of the
  configuration. The injected style sheet carries them, but \<^verbatim>\<open>markMnemonics\<close> also sets the
  inline declarations \<^verbatim>\<open>backgroundColor = '#000'\<close> and \<^verbatim>\<open>color = '#fff'\<close> on every hint (lemma
  \<open>inline_colours\<close>), which take precedence. In the sample session, configured with \<open>#f00\<close> on
  \<open>#0f0\<close>, the four hints are painted \<open>#000\<close> with \<open>#fff\<close>.
\<close>

theorem C5_inline_colours_override_config:
  "color (config exampleArmed) = ''#f00'' \<and> textColor (config exampleArmed) = ''#0f0'' \<and>
   mnemoStyle exampleArmed =
     Some \<lparr>rule_backgroundColor = ''#f00'', rule_color = ''#0f0'', rule_animationDuration = ''0.15s''\<rparr> \<and>
   map textContent (visibleHints exampleArmed) = [''S'', ''O1'', ''O2'', ''O3''] \<and>
   map (effectiveBackgroundColor exampleArmed) (visibleHints exampleArmed) =
     replicate 4 (Some (Lit ''#000'')) \<and>
   map (effectiveColor exampleArmed) (visibleHints exampleArmed) =
     replicate 4 (Some (Lit ''#fff''))"
  by code_simp

section \<open>Cancelling\<close>

text \<open>
  Claim C6. From the Armed state or the Disambiguating state, a cancel event (the Escape
  key going down, and likewise the modifier going up) returns the session to Idle and
  discards the pending group; every hint of the body is retired (it keeps its text, gets
  the class \<^verbatim>\<open>fade-out\<close> beside \<^verbatim>\<open>mnemo-label\<close>, and its removal is registered), none is
  created, and so no hint that is not fading out is left. The hints of the body are the
  ones the module has created (\<open>hintsTagged\<close>), which holds in every state of a session
  (lemmas \<open>hintsTagged_init\<close> and \<open>hintsTagged_run\<close>).
\<close>

theorem C6_cancel_returns_to_Idle:
  assumes "Armed s \<or> Disambiguating s" "hintsTagged s"
  shows "Idle (fst (keydownListener ''Escape'' s)) \<and>
         pendingGroup (fst (keydownListener ''Escape'' s)) = None \<and>
         list_all2 markedExiting (labels s) (labels (fst (keydownListener ''Escape'' s))) \<and>
         visibleHints (fst (keydownListener ''Escape'' s)) = [] \<and>
         Idle (keyupListener ''Alt'' s) \<and>
         pendingGroup (keyupListener ''Alt'' s) = None \<and>
         list_all2 markedExiting (labels s) (labels (keyupListener ''Alt'' s)) \<and>
         visibleHints (keyupListener ''Alt'' s) = []"
  using retired_resetMnemonics [OF assms(2)]
  by (simp add: keydownListener_def keyupListener_def Idle_resetMnemonics
      visibleHints_resetMnemonics)

theorem C6_cancel_witness:
  "Disambiguating exampleDisambiguating \<and> hintsTagged exampleDisambiguating \<and>
   map textContent (visibleHints exampleDisambiguating) = [''O1'', ''O2'', ''O3''] \<and>
   map textContent (labels exampleDisambiguating) =
     [''S'', ''O1'', ''O2'', ''O3'', ''O1'', ''O2'', ''O3''] \<and>
   Idle (fst (keydownListener ''Escape'' exampleDisambiguating)) \<and>
   pendingGroup (fst (keydownListener ''Escape'' exampleDisambiguating)) = None \<and>
   list_all2 markedExiting (labels exampleDisambiguating)
     (labels (fst (keydownListener ''Escape'' exampleDisambiguating))) \<and>
   visibleHints (fst (keydownListener ''Escape'' exampleDisambiguating)) = [] \<and>
   Idle (keyupListener ''Alt'' exampleDisambiguating) \<and>
   pendingGroup (keyupListener ''Alt'' exampleDisambiguating) = None \<and>
   list_all2 markedExiting (labels exampleDisambiguating)
     (labels (keyupListener ''Alt'' exampleDisambiguating)) \<and>
   visibleHints (keyupListener ''Alt'' exampleDisambiguating) = [] \<and>
   map classList (labels (keyupListener ''Alt'' exampleDisambiguating)) =
     replicate 7 [''mnemo-label'', ''fade-out''] \<and>
   map removeOnAnimationEnd (labels (keyupListener ''Alt'' exampleDisambiguating)) =
     replicate 7 True"
proof -
  have d: "Disambiguating exampleDisambiguating" by code_simp
  have t: "hintsTagged exampleDisambiguating" by code_simp
  have facts:
    "map textContent (visibleHints exampleDisambiguating) = [''O1'', ''O2'', ''O3'']"
    "map textContent (labels exampleDisambiguating) =
       [''S'', ''O1'', ''O2'', ''O3'', ''O1'', ''O2'', ''O3'']"
    "map classList (labels (keyupListener ''Alt'' exampleDisambiguating)) =
       replicate 7 [''mnemo-label'', ''fade-out'']"
    "map removeOnAnimationEnd (labels (keyupListener ''Alt'' exampleDisambiguating)) =
       replicate 7 True"
    by code_simp+
  from d have "Armed exampleDisambiguating \<or> Disambiguating exampleDisambiguating" by simp
  from C6_cancel_returns_to_Idle [OF this t] d t facts show ?thesis by simp
qed

section \<open>The invariant of the index\<close>

text \<open>
  Claim C7. After every rebuild of the index, every key of the mapping maps to a
  non-empty sequence, namely the elements of the document bound to it in document order;
  every key is the lower-cased value of the declared attribute of each of its elements (and
  is not empty); and an element whose attribute is missing or empty appears under no key.
  Elements are told apart by their identity, so the last part is stated for a document
  whose elements have different identities.
\<close>

theorem C7_index_invariant:
  "(\<forall>kg \<in> set (indexView (scanDocument s)).
      snd kg \<noteq> [] \<and> fst kg \<noteq> [] \<and>
      snd kg = boundTo (attr (config s)) (fst kg) (document s) \<and>
      (\<forall>el \<in> set (snd kg). \<exists>n \<in> set (document s). ident n = el \<and>
          (\<exists>v. getAttribute n (attr (config s)) = Some v \<and> fst kg = toLowerCase v))) \<and>
   (distinct (map ident (document s)) \<longrightarrow>
      (\<forall>n \<in> set (document s).
         getAttribute n (attr (config s)) = None \<or> getAttribute n (attr (config s)) = Some [] \<longrightarrow>
         (\<forall>kg \<in> set (indexView (scanDocument s)). ident n \<notin> set (snd kg))))"
proof -
  let ?name = "attr (config s)" and ?doc = "document s"
  have iv: "indexView (scanDocument s) = groupedIndex ?name ?doc"
    using scanDocument_store [of s] by simp
  have part1: "snd kg \<noteq> [] \<and> fst kg \<noteq> [] \<and> snd kg = boundTo ?name (fst kg) ?doc \<and>
      (\<forall>el \<in> set (snd kg). \<exists>n \<in> set ?doc. ident n = el \<and>
          (\<exists>v. getAttribute n ?name = Some v \<and> fst kg = toLowerCase v))"
    if "kg \<in> set (groupedIndex ?name ?doc)" for kg
  proof -
    from grouped_groupedIndex(1) [OF that]
    have g: "snd kg = boundTo ?name (fst kg) ?doc" and ne: "snd kg \<noteq> []" by blast+
    have "fst kg \<noteq> []" using g ne boundTo_key_nonempty by metis
    moreover have "\<forall>el \<in> set (snd kg). \<exists>n \<in> set ?doc. ident n = el \<and>
          (\<exists>v. getAttribute n ?name = Some v \<and> fst kg = toLowerCase v)"
      using g boundTo_member [of _ ?name "fst kg" ?doc] by fastforce
    ultimately show ?thesis using g ne by simp
  qed
  have part2: "ident n \<notin> set (snd kg)"
    if d: "distinct (map ident ?doc)" and n: "n \<in> set ?doc"
      and a: "getAttribute n ?name = None \<or> getAttribute n ?name = Some []"
      and kg: "kg \<in> set (groupedIndex ?name ?doc)" for n kg
  proof
    assume "ident n \<in> set (snd kg)"
    then have "ident n \<in> set (boundTo ?name (fst kg) ?doc)"
      using grouped_groupedIndex(1) [OF kg] by simp
    from boundTo_member [OF this] obtain n' v where n': "n' \<in> set ?doc" "ident n' = ident n"
      "getAttribute n' ?name = Some v" "v \<noteq> []" by blast
    have "inj_on ident (set ?doc)" using d by (simp add: distinct_map)
    then have "n' = n" using n n' by (auto dest: inj_onD)
    then show False using a n' by auto
  qed
  show ?thesis unfolding iv using part1 part2 by blast
qed

theorem C7_index_invariant_witness:
  "indexView (scanDocument exampleIdle) = [(''s'', [1]), (''o'', [2, 3, 4])] \<and>
   distinct (map ident (document exampleIdle)) \<and>
   boundTo (attr (config exampleIdle)) ''o'' (document exampleIdle) = [2, 3, 4] \<and>
   getAttribute (document exampleIdle ! 4) (attr (config exampleIdle)) = Some [] \<and>
   getAttribute (document exampleIdle ! 5) (attr (config exampleIdle)) = None \<and>
   ident (document exampleIdle ! 4) \<notin> set [2, 3, 4] \<and>
   ident (document exampleIdle ! 5) \<notin> set [2, 3, 4]"
proof -
  have iv: "indexView (scanDocument exampleIdle) = [(''s'', [1]), (''o'', [2, 3, 4])]"
    by code_simp
  have d: "distinct (map ident (document exampleIdle))" by code_simp
  have n4: "document exampleIdle ! 4 \<in> set (document exampleIdle)"
    and n5: "document exampleIdle ! 5 \<in> set (document exampleIdle)" by code_simp+
  have a4: "getAttribute (document exampleIdle ! 4) (attr (config exampleIdle)) = Some []"
    and a5: "getAttribute (document exampleIdle ! 5) (attr (config exampleIdle)) = None"
    by code_simp+
  note inst = C7_index_invariant [of exampleIdle, unfolded iv]
  from inst have "boundTo (attr (config exampleIdle)) ''o'' (document exampleIdle) = [2, 3, 4]"
    by simp
  moreover from inst d n4 a4 have "ident (document exampleIdle ! 4) \<notin> set [2, 3, 4]"
    by fastforce
  moreover from inst d n5 a5 have "ident (document exampleIdle ! 5) \<notin> set [2, 3, 4]"
    by fastforce
  ultimately show ?thesis using iv d a4 a5 by simp
qed

section \<open>Rebuilding twice\<close>

text \<open>
  Claim C8. Rebuilding the index is idempotent: a second rescan of the same document with
  the same attribute name yields the same keys in the same order and, for every key, the
  same elements in the same order.
\<close>

theorem C8_rescan_idempotent:
  "indexView (scanDocument (scanDocument s)) = indexView (scanDocument s) \<and>
   map fst (accessMap (scanDocument (scanDocument s))) = map fst (accessMap (scanDocument s)) \<and>
   (\<forall>key. accessMap_get (scanDocument (scanDocument s)) key = accessMap_get (scanDocument s) key)"
proof -
  have iv: "indexView (scanDocument (scanDocument s)) = indexView (scanDocument s)"
    using scanDocument_store [of s] scanDocument_store [of "scanDocument s"] by simp
  have keys: "\<And>t. map fst (accessMap t) = map fst (indexView t)"
    by (simp add: indexView_def comp_def)
  have get: "\<And>t key. accessMap_get t key = map_of (indexView t) key"
    by (simp add: accessMap_get_def indexView_def map_of_map_restrict comp_def map_of_map [unfolded split_def comp_def])
  show ?thesis by (simp add: keys get iv)
qed

section \<open>Letters in the Disambiguating state\<close>

text \<open>
  Claim C9. In the Disambiguating state, a key of one character that is not a digit from
  1 to 9 is resolved against the index as it is now. When its lower-cased key has exactly
  one element, that element is triggered and the session returns to Idle. When it has two
  or more, the array of that key becomes the pending group and the visible hints are the
  numbered hints of that key.
\<close>

theorem C9_letter_while_Disambiguating:
  assumes "Disambiguating s" "wellFormed s" "length key = 1" "\<not> isDigit1to9 key"
    and "accessMap_get s (toLowerCase key) = Some g"
  shows "(length g = 1 \<longrightarrow>
            effects (fst (keydownListener key s)) = effects s @ triggered (g ! 0) \<and>
            Idle (fst (keydownListener key s)) \<and>
            snd (keydownListener key s)) \<and>
         (2 \<le> length g \<longrightarrow>
            Disambiguating (fst (keydownListener key s)) \<and>
            pendingGroup (fst (keydownListener key s)) = map_of (accessMap s) (toLowerCase key) \<and>
            pendingGroup_contents (fst (keydownListener key s)) = Some g \<and>
            map textContent (visibleHints (fst (keydownListener key s))) =
              numberedHints (toLowerCase key) (length g) \<and>
            effects (fst (keydownListener key s)) = effects s \<and>
            snd (keydownListener key s))"
proof (intro conjI impI)
  have alt: "isAltActive s" using assms(1) by (simp add: Disambiguating_def)
  have nd: "\<not> (pendingGroup s \<noteq> None \<and> isDigit1to9 key)" using assms(4) by simp
  {
    assume one: "length g = 1"
    note k = letter_triggers_single [OF alt assms(3) nd assms(5) one]
    show "effects (fst (keydownListener key s)) = effects s @ triggered (g ! 0)"
      by (simp add: k effects_triggerElement)
    show "Idle (fst (keydownListener key s))" by (simp add: k Idle_resetMnemonics)
    show "snd (keydownListener key s)" by (simp add: k)
  }
  {
    assume many: "2 \<le> length g"
    from letter_opens_group [OF alt assms(3) nd assms(5) many] obtain a where
      a: "map_of (accessMap s) (toLowerCase key) = Some a" "heap s ! a = g" and
      k: "keydownListener key s =
            (markMnemonics True (Some (toLowerCase key)) None (s\<lparr>pendingGroup := Some a\<rparr>), True)"
      by blast
    have ne: "toLowerCase key \<noteq> []" using assms(3) by (metis toLowerCase_length length_0_conv zero_neq_one)
    have dk: "distinct (map fst (accessMap (s\<lparr>pendingGroup := Some a\<rparr>)))"
      using assms(2) by (simp add: wellFormed_iff storeOK_def)
    show "Disambiguating (fst (keydownListener key s))"
      using alt by (simp add: k Disambiguating_def)
    show "pendingGroup (fst (keydownListener key s)) = map_of (accessMap s) (toLowerCase key)"
      by (simp add: k a)
    show "pendingGroup_contents (fst (keydownListener key s)) = Some g"
      by (simp add: k a pendingGroup_contents_def)
    show "map textContent (visibleHints (fst (keydownListener key s))) =
            numberedHints (toLowerCase key) (length g)"
      using newLabels_group_texts [OF dk _ ne, of a] a many
      by (simp add: k visibleHints_markMnemonics)
    show "effects (fst (keydownListener key s)) = effects s" by (simp add: k)
    show "snd (keydownListener key s)" by (simp add: k)
  }
qed

theorem C9_letter_while_Disambiguating_witness:
  "Disambiguating exampleMutated \<and> wellFormed exampleMutated \<and>
   pendingGroup_contents exampleMutated = Some [2, 3, 4] \<and>
   accessMap_get exampleMutated ''o'' = Some [2, 3, 4, 7] \<and>
   accessMap_get exampleMutated ''s'' = Some [1] \<and>
   effects (fst (keydownListener ''s'' exampleMutated)) = triggered 1 \<and>
   Idle (fst (keydownListener ''s'' exampleMutated)) \<and>
   Disambiguating (fst (keydownListener ''O'' exampleMutated)) \<and>
   pendingGroup_contents (fst (keydownListener ''O'' exampleMutated)) = Some [2, 3, 4, 7] \<and>
   map textContent (visibleHints (fst (keydownListener ''O'' exampleMutated))) =
     [''O1'', ''O2'', ''O3'', ''O4'']"
proof -
  have dis: "Disambiguating exampleMutated" by code_simp
  have wf: "wellFormed exampleMutated" by code_simp
  have nd: "\<not> isDigit1to9 ''s''" "\<not> isDigit1to9 ''O''" by code_simp+
  have get_s: "accessMap_get exampleMutated (toLowerCase ''s'') = Some [1]" by code_simp
  have get_o: "accessMap_get exampleMutated (toLowerCase ''O'') = Some [2, 3, 4, 7]" by code_simp
  have facts:
    "pendingGroup_contents exampleMutated = Some [2, 3, 4]"
    "accessMap_get exampleMutated ''o'' = Some [2, 3, 4, 7]"
    "accessMap_get exampleMutated ''s'' = Some [1]"
    "effects exampleMutated = []"
    "numberedHints (toLowerCase ''O'') (Suc (Suc (Suc (Suc 0)))) = [''O1'', ''O2'', ''O3'', ''O4'']"
    by code_simp+
  from C9_letter_while_Disambiguating [OF dis wf _ nd(1) get_s]
       C9_letter_while_Disambiguating [OF dis wf _ nd(2) get_o]
  show ?thesis using dis wf facts by simp
qed

section \<open>The session invariant\<close>

text \<open>
  Claim C10. The session keeps the invariant that a pending disambiguation group is
  held only while the modifier is recorded as active: it holds when \<^verbatim>\<open>initMnemonics\<close> returns,
  the keydown listener and the keyup listener preserve it on every key, and so it holds
  after every sequence of events.
\<close>

theorem C10_pendingGroup_implies_isAltActive:
  "groupImpliesAlt (initMnemonics userConfig (moduleLoaded doc sx sy)) \<and>
   (groupImpliesAlt s \<longrightarrow>
      groupImpliesAlt (fst (keydownListener key s)) \<and> groupImpliesAlt (keyupListener key s)) \<and>
   groupImpliesAlt (run (initMnemonics userConfig (moduleLoaded doc sx sy)) evs)"
  using groupImpliesAlt_init groupImpliesAlt_keydownListener groupImpliesAlt_keyupListener
    groupImpliesAlt_run by blast

theorem C10_invariant_witness:
  "pendingGroup exampleDisambiguating = Some 1 \<and> isAltActive exampleDisambiguating \<and>
   groupImpliesAlt (fst (keydownListener ''x'' exampleDisambiguating)) \<and>
   groupImpliesAlt (keyupListener ''Alt'' exampleDisambiguating)"
proof -
  have p: "pendingGroup exampleDisambiguating = Some 1" by code_simp
  have g: "groupImpliesAlt exampleDisambiguating"
    using C10_pendingGroup_implies_isAltActive
      [of exampleConfig exampleDoc 0 0 exampleDisambiguating "''x''" "[KeyDown ''Alt'', KeyDown ''o'']"]
    by (simp add: exampleDisambiguating_def exampleIdle_def)
  then have a: "isAltActive exampleDisambiguating" using p by (simp add: groupImpliesAlt_def)
  from g C10_pendingGroup_implies_isAltActive
      [of exampleConfig exampleDoc 0 0 exampleDisambiguating "''x''" "[]"]
  have "groupImpliesAlt (fst (keydownListener ''x'' exampleDisambiguating)) \<and>
        groupImpliesAlt (keyupListener ''x'' exampleDisambiguating)" by blast
  moreover from g C10_pendingGroup_implies_isAltActive
      [of exampleConfig exampleDoc 0 0 exampleDisambiguating "''Alt''" "[]"]
  have "groupImpliesAlt (keyupListener ''Alt'' exampleDisambiguating)" by blast
  ultimately show ?thesis using p a by simp
qed

end
